theory Spec2Isabelle
  imports Main "HOL-Library.Word"
begin

section \<open>Values sent by clients\<close>

text \<open>
  An event's payload is a JSON value, or \<open>JUndefined\<close> when the client sent none. The
  handlers coerce it with \<^verbatim>\<open>String(..)\<close>, \<^verbatim>\<open>x || d\<close>, \<^verbatim>\<open>x ?? d\<close> and \<^verbatim>\<open>!!x\<close>, so
  the model keeps the value's shape. Strings are HOL strings: sequences of characters
  with codes below 256, each one code unit, so \<^verbatim>\<open>s.slice(0, n)\<close> is \<open>take n s\<close>;
  strings with other characters are outside the model. A number is an integer from
  \<open>-2^53\<close> to \<open>2^53 - 1\<close>, the signed value of a 54-bit word: each of them is a
  JavaScript number that prints as plain decimal digits. Fractions and larger numbers
  are outside the model. \<open>JObj fs\<close> is a plain object with the own properties \<open>fs\<close>,
  read with \<open>map_of\<close> (the first entry of a key counts).
\<close>

datatype jsval =
    JUndefined
  | JNull
  | JBool bool
  | JNum "54 word"
  | JStr string
  | JArr "jsval list"
  | JObj "(string \<times> jsval) list"

text \<open>
  The one exception the handlers can raise. Where a handler throws, it has changed no
  state and emitted nothing by then; what the uncaught exception does to the process is
  not followed.
\<close>

datatype error = TypeError

fun truthy :: "jsval \<Rightarrow> bool" where
  "truthy JUndefined = False"
| "truthy JNull = False"
| "truthy (JBool b) = b"
| "truthy (JNum n) = (n \<noteq> 0)"
| "truthy (JStr s) = (s \<noteq> [])"
| "truthy (JArr xs) = True"
| "truthy (JObj fs) = True"

fun dec_nat :: "nat \<Rightarrow> string" where
  "dec_nat n = (if n < 10 then [''0123456789'' ! n]
                else dec_nat (n div 10) @ [''0123456789'' ! (n mod 10)])"

definition dec_int :: "int \<Rightarrow> string" where
  "dec_int n = (if n < 0 then ''-'' @ dec_nat (nat (- n)) else dec_nat (nat n))"

fun join_comma :: "string list \<Rightarrow> string" where
  "join_comma [] = []"
| "join_comma [s] = s"
| "join_comma (s # t # ss) = s @ '','' @ join_comma (t # ss)"

text \<open>
  \<^verbatim>\<open>String(v)\<close>; \<open>None\<close> stands for the TypeError it throws. An array prints its
  elements separated by commas, with \<^verbatim>\<open>null\<close> and \<^verbatim>\<open>undefined\<close> elements printed as
  nothing, so \<^verbatim>\<open>String([])\<close> is the empty string. A plain object prints as
  \<^verbatim>\<open>[object Object]\<close> through the inherited \<^verbatim>\<open>toString\<close>; an own property named
  \<^verbatim>\<open>toString\<close> hides it, and since no JSON value is callable the conversion then finds
  no primitive and throws, also when the object is an element of an array.
\<close>

fun js_String :: "jsval \<Rightarrow> string option" where
  "js_String JUndefined = Some ''undefined''"
| "js_String JNull = Some ''null''"
| "js_String (JBool b) = Some (if b then ''true'' else ''false'')"
| "js_String (JNum n) = Some (dec_int (sint n))"
| "js_String (JStr s) = Some s"
| "js_String (JArr xs) =
     map_option join_comma
       (those (map (\<lambda>v. if v = JUndefined \<or> v = JNull then Some [] else js_String v) xs))"
| "js_String (JObj fs) =
     (if ''toString'' \<in> fst ` set fs then None else Some ''[object Object]'')"

text \<open>The value of a nullable string when it is truthy (neither \<^verbatim>\<open>null\<close> nor empty).\<close>

fun if_truthy :: "string option \<Rightarrow> string option" where
  "if_truthy None = None"
| "if_truthy (Some s) = (if s = [] then None else Some s)"

text \<open>
  The parameter pattern \<^verbatim>\<open>({ room })\<close> of the join handler: it throws on a missing or
  null payload, reads the property \<^verbatim>\<open>room\<close> of an object, and finds no such property
  on a boolean, a number, a string or an array.
\<close>

fun destructure_room :: "jsval \<Rightarrow> error + jsval" where
  "destructure_room JUndefined = Inl TypeError"
| "destructure_room JNull = Inl TypeError"
| "destructure_room (JObj fs) =
     Inr (case map_of fs ''room'' of None \<Rightarrow> JUndefined | Some v \<Rightarrow> v)"
| "destructure_room v = Inr JUndefined"

text \<open>\<^verbatim>\<open>String(room || 'general').slice(0, 50)\<close> of the join handler.\<close>

definition safeRoom :: "jsval \<Rightarrow> error + string" where
  "safeRoom room =
     (case js_String (if truthy room then room else JStr ''general'') of
        None \<Rightarrow> Inl TypeError
      | Some s \<Rightarrow> Inr (take 50 s))"

text \<open>
  The value of the join handler's \<^verbatim>\<open>safeRoom\<close> for a payload, or the error thrown
  on the way to it.
\<close>

definition effective_room :: "jsval \<Rightarrow> error + string" where
  "effective_room payload =
     (case destructure_room payload of Inl e \<Rightarrow> Inl e | Inr room \<Rightarrow> safeRoom room)"


section \<open>Sockets, shared state and emitted events\<close>

type_synonym sid = string
type_synonym room = string

text \<open>
  A socket object: the transport's fields (\<open>connected\<close>, the adapter rooms it has joined
  with \<^verbatim>\<open>socket.join\<close>), the two fields of \<^verbatim>\<open>socket.data\<close>, and the two variables
  of the connection handler's closure (\<^verbatim>\<open>user.username\<close>, \<^verbatim>\<open>currentRoom\<close>).
  A JavaScript \<^verbatim>\<open>Set\<close> keeps insertion order: it is a list without duplicates.
\<close>

record socket =
  username :: string
  connected :: bool
  rooms :: "room list"
  strangerRoom :: "room option"
  partnerId :: "sid option"
  currentRoom :: "room option"

text \<open>
  \<open>sockets\<close> holds every socket object created so far, by identifier; \<open>registry\<close> is
  the key set of \<^verbatim>\<open>io.sockets.sockets\<close>, the sockets the transport still knows.
\<close>

record state =
  waitingQueue :: "sid list"
  roomMembers :: "room \<rightharpoonup> sid list"
  sockets :: "sid \<rightharpoonup> socket"
  registry :: "sid list"

record message =
  msg_id :: string
  msg_username :: string
  msg_room :: room
  msg_text :: string
  msg_ts :: int

record stranger_message =
  sm_id :: string
  sm_username :: string
  sm_text :: string
  sm_ts :: int

text \<open>
  The four system notices, by template:
  \<open>LeftRoom u\<close> is \<^verbatim>\<open>`${u} left the room.`\<close>,
  \<open>Welcome u r\<close> is \<^verbatim>\<open>`Welcome ${u}! You joined #${r}.`\<close>,
  \<open>JoinedRoom u\<close> is \<^verbatim>\<open>`${u} joined the room.`\<close>, and
  \<open>PartnerGone\<close> is the cross-marked \<^verbatim>\<open>Your partner has disconnected.\<close>
\<close>

datatype notice =
    LeftRoom string
  | Welcome string room
  | JoinedRoom string
  | PartnerGone

datatype event =
    Unauthorized
  | SystemMessage notice
  | Presence room nat
  | History "message list"
  | Typing string bool
  | WaitingStranger
  | StrangerFound
  | StrangerMessage stranger_message
  | StrangerLeft
  | YouDisconnected

text \<open>
  \<open>ToSocket i\<close> is \<^verbatim>\<open>socket.emit\<close> on socket \<open>i\<close>, \<open>ToRoom r\<close> is
  \<^verbatim>\<open>io.to(r).emit\<close>, and \<open>ToRoomExcept r i\<close> is \<^verbatim>\<open>socket.to(r).emit\<close> on socket \<open>i\<close>.
\<close>

datatype audience = ToSocket sid | ToRoom room | ToRoomExcept room sid

datatype emission = Emit audience event

definition init_state :: state where
  "init_state = \<lparr>waitingQueue = [], roomMembers = Map.empty, sockets = Map.empty, registry = []\<rparr>"

subsection \<open>JavaScript sets and the transport\<close>

definition set_add :: "'a \<Rightarrow> 'a list \<Rightarrow> 'a list" where
  "set_add x xs = (if x \<in> set xs then xs else xs @ [x])"

definition set_delete :: "'a \<Rightarrow> 'a list \<Rightarrow> 'a list" where
  "set_delete x xs = removeAll x xs"

definition upd_socket :: "sid \<Rightarrow> (socket \<Rightarrow> socket) \<Rightarrow> state \<Rightarrow> state" where
  "upd_socket i f st =
     (case sockets st i of
        None \<Rightarrow> st
      | Some s \<Rightarrow> st\<lparr>sockets := (sockets st)(i \<mapsto> f s)\<rparr>)"

text \<open>\<^verbatim>\<open>io.sockets.sockets.get(i)\<close>.\<close>

definition io_get :: "state \<Rightarrow> sid \<Rightarrow> socket option" where
  "io_get st i = (if i \<in> set (registry st) then sockets st i else None)"

definition socket_join :: "sid \<Rightarrow> room \<Rightarrow> state \<Rightarrow> state" where
  "socket_join i r st = upd_socket i (\<lambda>s. s\<lparr>rooms := set_add r (rooms s)\<rparr>) st"

definition socket_leave :: "sid \<Rightarrow> room \<Rightarrow> state \<Rightarrow> state" where
  "socket_leave i r st = upd_socket i (\<lambda>s. s\<lparr>rooms := set_delete r (rooms s)\<rparr>) st"

text \<open>
  What the transport does around the handlers. A new connection gets a socket object,
  joined to the room named by its own identifier and entered in the registry, before the
  connection handler runs. When a connection closes, the socket leaves every room, is
  removed from the registry and is marked disconnected, and only then the socket's
  \<^verbatim>\<open>disconnect\<close> handler runs, once.
\<close>

definition transport_open :: "state \<Rightarrow> sid \<Rightarrow> state" where
  "transport_open st i =
     st\<lparr>sockets := (sockets st)(i \<mapsto>
           \<lparr>username = [], connected = True, rooms = [i], strangerRoom = None,
            partnerId = None, currentRoom = None\<rparr>),
        registry := set_add i (registry st)\<rparr>"

definition transport_close :: "state \<Rightarrow> sid \<Rightarrow> state" where
  "transport_close st i =
     upd_socket i (\<lambda>s. s\<lparr>connected := False, rooms := []\<rparr>)
       (st\<lparr>registry := set_delete i (registry st)\<rparr>)"

text \<open>The connections an emission reaches, in the state where it is made.\<close>

definition in_room :: "state \<Rightarrow> room \<Rightarrow> sid \<Rightarrow> bool" where
  "in_room st r j = (case sockets st j of None \<Rightarrow> False | Some s \<Rightarrow> r \<in> set (rooms s))"

fun recipients :: "state \<Rightarrow> audience \<Rightarrow> sid list" where
  "recipients st (ToSocket i) =
     (case sockets st i of None \<Rightarrow> [] | Some s \<Rightarrow> if connected s then [i] else [])"
| "recipients st (ToRoom r) = filter (in_room st r) (registry st)"
| "recipients st (ToRoomExcept r i) = filter (\<lambda>j. j \<noteq> i \<and> in_room st r j) (registry st)"

section \<open>Room helpers\<close>

definition joinRoom :: "state \<Rightarrow> sid \<Rightarrow> room \<Rightarrow> state" where
  "joinRoom st i r =
     (let members = (case roomMembers st r of None \<Rightarrow> [] | Some m \<Rightarrow> m)
      in socket_join i r (st\<lparr>roomMembers := (roomMembers st)(r \<mapsto> set_add i members)\<rparr>))"

definition leaveRoom :: "state \<Rightarrow> sid \<Rightarrow> room option \<Rightarrow> state" where
  "leaveRoom st i room =
     (case if_truthy room of
        None \<Rightarrow> st
      | Some r \<Rightarrow>
          socket_leave i r
            (case roomMembers st r of
               None \<Rightarrow> st
             | Some m \<Rightarrow>
                 (let m' = set_delete i m
                  in if length m' = 0 then st\<lparr>roomMembers := (roomMembers st)(r := None)\<rparr>
                     else st\<lparr>roomMembers := (roomMembers st)(r \<mapsto> m')\<rparr>)))"

definition getUserCount :: "state \<Rightarrow> room \<Rightarrow> nat" where
  "getUserCount st r = (case roomMembers st r of None \<Rightarrow> 0 | Some m \<Rightarrow> length m)"

section \<open>Connection and room handlers\<close>

text \<open>
  The connection handler: without a session user the socket is told so and closed, and
  no event handler is ever registered on it; otherwise the closure variables are set.
\<close>

definition on_connection :: "state \<Rightarrow> sid \<Rightarrow> string option \<Rightarrow> state \<times> emission list" where
  "on_connection st i sess_user =
     (case sess_user of
        None \<Rightarrow> (transport_close st i, [Emit (ToSocket i) Unauthorized])
      | Some u \<Rightarrow> (upd_socket i (\<lambda>s. s\<lparr>username := u, currentRoom := None\<rparr>) st, []))"

text \<open>
  The block \<^verbatim>\<open>if (currentRoom) { leaveRoom(..); emit left; emit presence }\<close>, which the
  join handler and the disconnect handler both contain.
\<close>

definition leave_current :: "state \<Rightarrow> sid \<Rightarrow> state \<times> emission list" where
  "leave_current st i =
     (case sockets st i of
        None \<Rightarrow> (st, [])
      | Some s \<Rightarrow>
          (case if_truthy (currentRoom s) of
             None \<Rightarrow> (st, [])
           | Some r \<Rightarrow>
               (let st1 = leaveRoom st i (currentRoom s)
                in (st1, [Emit (ToRoom r) (SystemMessage (LeftRoom (username s))),
                          Emit (ToRoom r) (Presence r (getUserCount st1 r))]))))"

text \<open>
  \<^verbatim>\<open>filter(m => m.room === currentRoom).sort((a, b) => a.ts - b.ts).slice(-30)\<close>:
  the sort is stable, and \<^verbatim>\<open>slice(-30)\<close> keeps the last 30 elements, or all of them
  when there are fewer.
\<close>

definition recent_history :: "message list \<Rightarrow> room \<Rightarrow> message list" where
  "recent_history msgs r =
     (let h = sort_key msg_ts (filter (\<lambda>m. msg_room m = r) msgs)
      in drop (length h - 30) h)"

text \<open>
  The join handler is an \<^verbatim>\<open>async\<close> function that suspends at \<^verbatim>\<open>await db.read()\<close>,
  and handlers of other events, also of the same socket, run before it resumes.
  \<open>join_sync\<close> is the part before the suspension. It throws, or returns at once when
  the socket is already in the room, or suspends, having changed the state and emitted
  events.
\<close>

datatype join_step = Returned | Suspended state "emission list"

definition join_sync :: "state \<Rightarrow> sid \<Rightarrow> jsval \<Rightarrow> error + join_step" where
  "join_sync st i payload =
     (case sockets st i of
        None \<Rightarrow> Inr Returned
      | Some s \<Rightarrow>
          (case effective_room payload of
             Inl e \<Rightarrow> Inl e
           | Inr safe \<Rightarrow>
               if currentRoom s = Some safe then Inr Returned
               else
                 (let (st1, out1) = leave_current st i;
                      st2 = upd_socket i (\<lambda>s. s\<lparr>currentRoom := Some safe\<rparr>) st1
                  in Inr (Suspended (joinRoom st2 i safe) out1))))"

text \<open>
  \<open>join_resume\<close> is the part after the suspension, run in the state of that later
  moment with the messages that the read returned. It changes no state and reads the
  closure's \<^verbatim>\<open>currentRoom\<close> again, not the local \<^verbatim>\<open>safeRoom\<close>. A continuation exists
  only after \<^verbatim>\<open>currentRoom\<close> was assigned a string, so the \<open>None\<close> branch stands for no
  continuation.
\<close>

definition join_resume :: "state \<Rightarrow> sid \<Rightarrow> message list \<Rightarrow> emission list" where
  "join_resume st i db =
     (case sockets st i of
        None \<Rightarrow> []
      | Some s \<Rightarrow>
          (case currentRoom s of
             None \<Rightarrow> []
           | Some r \<Rightarrow>
               [Emit (ToSocket i) (History (recent_history db r)),
                Emit (ToSocket i) (SystemMessage (Welcome (username s) r)),
                Emit (ToRoomExcept r i) (SystemMessage (JoinedRoom (username s))),
                Emit (ToRoom r) (Presence r (getUserCount st r))]))"

text \<open>The state after the first part of the join handler, whatever its outcome.\<close>

definition after_join :: "state \<Rightarrow> sid \<Rightarrow> jsval \<Rightarrow> state" where
  "after_join st i payload =
     (case join_sync st i payload of
        Inl e \<Rightarrow> st
      | Inr Returned \<Rightarrow> st
      | Inr (Suspended st' out) \<Rightarrow> st')"

text \<open>
  The chat message handler changes none of the shared state (it appends to the database
  and emits to the room) and is not part of this development.
\<close>

definition typing_handler :: "state \<Rightarrow> sid \<Rightarrow> jsval \<Rightarrow> state \<times> emission list" where
  "typing_handler st i isTyping =
     (case sockets st i of
        None \<Rightarrow> (st, [])
      | Some s \<Rightarrow>
          (case if_truthy (currentRoom s) of
             None \<Rightarrow> (st, [])
           | Some r \<Rightarrow> (st, [Emit (ToRoomExcept r i) (Typing (username s) (truthy isTyping))])))"

section \<open>Stranger chat handlers\<close>

definition clear_pairing :: "socket \<Rightarrow> socket" where
  "clear_pairing s = s\<lparr>strangerRoom := None, partnerId := None\<rparr>"

definition handleStrangerLeave :: "state \<Rightarrow> sid \<Rightarrow> state \<times> emission list" where
  "handleStrangerLeave st l =
     (case sockets st l of
        None \<Rightarrow> (st, [])
      | Some ls \<Rightarrow>
          (case if_truthy (strangerRoom ls) of
             None \<Rightarrow> (st, [])
           | Some r \<Rightarrow>
               (let (st1, out1) =
                      (case if_truthy (partnerId ls) of
                         None \<Rightarrow> (st, [])
                       | Some p \<Rightarrow>
                           (case io_get st p of
                              None \<Rightarrow> (st, [])
                            | Some ps \<Rightarrow>
                                (upd_socket p clear_pairing (socket_leave p r st),
                                 [Emit (ToSocket p) StrangerLeft])));
                    st2 = upd_socket l clear_pairing (socket_leave l r st1)
                in (st2, Emit (ToSocket l) YouDisconnected # out1))))"

text \<open>
  The block \<^verbatim>\<open>if (socket.data?.strangerRoom) handleStrangerLeave(socket)\<close>, which three
  handlers contain.
\<close>

definition leave_if_paired :: "state \<Rightarrow> sid \<Rightarrow> state \<times> emission list" where
  "leave_if_paired st i =
     (case sockets st i of
        None \<Rightarrow> (st, [])
      | Some s \<Rightarrow>
          (case if_truthy (strangerRoom s) of
             None \<Rightarrow> (st, [])
           | Some r \<Rightarrow> handleStrangerLeave st i))"

text \<open>
  The findStranger handler; \<open>nid\<close> is the result of \<^verbatim>\<open>nanoid()\<close>. The first element of
  the waiting queue is the one that \<^verbatim>\<open>const [partnerId] = waitingQueue\<close> takes.
\<close>

definition findStranger_handler :: "state \<Rightarrow> sid \<Rightarrow> string \<Rightarrow> state \<times> emission list" where
  "findStranger_handler st i nid =
     (let (st1, out1) = leave_if_paired st i
      in case waitingQueue st1 of
           [] \<Rightarrow>
             (st1\<lparr>waitingQueue := set_add i (waitingQueue st1)\<rparr>,
              out1 @ [Emit (ToSocket i) WaitingStranger])
         | p # rest \<Rightarrow>
             (let st2 = st1\<lparr>waitingQueue := set_delete p (waitingQueue st1)\<rparr>;
                  vanished = (st2\<lparr>waitingQueue := set_add i (waitingQueue st2)\<rparr>,
                              out1 @ [Emit (ToSocket i) WaitingStranger])
              in case io_get st2 p of
                   None \<Rightarrow> vanished
                 | Some ps \<Rightarrow>
                     if \<not> connected ps then vanished
                     else
                       (let r = ''stranger-'' @ nid;
                            st3 = socket_join i r (socket_join p r st2);
                            st4 = upd_socket p
                                    (\<lambda>s. s\<lparr>strangerRoom := Some r, partnerId := Some i\<rparr>) st3;
                            st5 = upd_socket i
                                    (\<lambda>s. s\<lparr>strangerRoom := Some r, partnerId := Some p\<rparr>) st4
                        in (st5, out1 @ [Emit (ToRoom r) StrangerFound]))))"


definition leaveStranger_handler :: "state \<Rightarrow> sid \<Rightarrow> state \<times> emission list" where
  "leaveStranger_handler st i =
     (if i \<in> set (waitingQueue st)
      then (st\<lparr>waitingQueue := set_delete i (waitingQueue st)\<rparr>,
            [Emit (ToSocket i) YouDisconnected])
      else leave_if_paired st i)"

definition disconnect_handler :: "state \<Rightarrow> sid \<Rightarrow> state \<times> emission list" where
  "disconnect_handler st i =
     (let (st1, out1) = leave_current st i;
          st2 = (if i \<in> set (waitingQueue st1)
                 then st1\<lparr>waitingQueue := set_delete i (waitingQueue st1)\<rparr> else st1);
          (st3, out3) = leave_if_paired st2 i
      in (st3, out1 @ out3))"

section \<open>Reachable states\<close>

text \<open>
  The states the server can be in: each step is one handler run to completion for an
  event of a socket the transport knows. Identifiers are non-empty strings that the
  transport never reuses. A join contributes the step of its first part; its resumed
  part, like the handlers for typing, chat and stranger messages, leaves the state as
  it is.
\<close>

inductive reachable :: "state \<Rightarrow> bool" where
  r_init: "reachable init_state"
| r_connect: "reachable st \<Longrightarrow> i \<noteq> [] \<Longrightarrow> sockets st i = None
     \<Longrightarrow> reachable (fst (on_connection (transport_open st i) i sess_user))"
| r_join: "reachable st \<Longrightarrow> i \<in> set (registry st)
     \<Longrightarrow> reachable (after_join st i payload)"
| r_findStranger: "reachable st \<Longrightarrow> i \<in> set (registry st)
     \<Longrightarrow> reachable (fst (findStranger_handler st i nid))"
| r_leaveStranger: "reachable st \<Longrightarrow> i \<in> set (registry st)
     \<Longrightarrow> reachable (fst (leaveStranger_handler st i))"
| r_disconnect: "reachable st \<Longrightarrow> i \<in> set (registry st)
     \<Longrightarrow> reachable (fst (disconnect_handler (transport_close st i) i))"

text \<open>
  The same steps, with every join restricted to the effective room names that \<open>ok\<close>
  admits.
\<close>

inductive reachable_with :: "(room \<Rightarrow> bool) \<Rightarrow> state \<Rightarrow> bool" for ok :: "room \<Rightarrow> bool" where
  w_init: "reachable_with ok init_state"
| w_connect: "reachable_with ok st \<Longrightarrow> i \<noteq> [] \<Longrightarrow> sockets st i = None
     \<Longrightarrow> reachable_with ok (fst (on_connection (transport_open st i) i sess_user))"
| w_join: "reachable_with ok st \<Longrightarrow> i \<in> set (registry st)
     \<Longrightarrow> effective_room payload = Inr R \<Longrightarrow> ok R
     \<Longrightarrow> reachable_with ok (after_join st i payload)"
| w_findStranger: "reachable_with ok st \<Longrightarrow> i \<in> set (registry st)
     \<Longrightarrow> reachable_with ok (fst (findStranger_handler st i nid))"
| w_leaveStranger: "reachable_with ok st \<Longrightarrow> i \<in> set (registry st)
     \<Longrightarrow> reachable_with ok (fst (leaveStranger_handler st i))"
| w_disconnect: "reachable_with ok st \<Longrightarrow> i \<in> set (registry st)
     \<Longrightarrow> reachable_with ok (fst (disconnect_handler (transport_close st i) i))"

text \<open>
  A pairing channel's name starts with \<^verbatim>\<open>stranger-\<close>. \<open>reachable_named\<close> are the states
  reached when no join names the empty room, \<open>reachable_apart\<close> those reached when no
  join names a room like a pairing channel.
\<close>

definition is_channel :: "room \<Rightarrow> bool" where
  "is_channel r = (take 9 r = ''stranger-'')"

definition reachable_named :: "state \<Rightarrow> bool" where
  "reachable_named st = reachable_with (\<lambda>R. R \<noteq> []) st"


section \<open>Views of the state\<close>

text \<open>
  \<open>alive st p\<close> is the negation of the handlers' test
  \<^verbatim>\<open>!partner || !partner.connected\<close> on \<^verbatim>\<open>io.sockets.sockets.get(p)\<close>.
  \<open>pairing st j\<close> is the content of \<^verbatim>\<open>socket.data\<close> of socket \<open>j\<close>: the pairing
  channel and the partner. \<open>conn st j\<close> is its \<open>connected\<close> flag and \<open>cur st j\<close> its
  \<^verbatim>\<open>currentRoom\<close>. \<open>live_in_room st r\<close> lists the connections known to the transport
  whose \<^verbatim>\<open>currentRoom\<close> is \<open>r\<close>.
\<close>

definition alive :: "state \<Rightarrow> sid \<Rightarrow> bool" where
  "alive st p = (case io_get st p of None \<Rightarrow> False | Some ps \<Rightarrow> connected ps)"

definition pairing :: "state \<Rightarrow> sid \<Rightarrow> room option \<times> sid option" where
  "pairing st j =
     (case sockets st j of None \<Rightarrow> (None, None) | Some s \<Rightarrow> (strangerRoom s, partnerId s))"

definition conn :: "state \<Rightarrow> sid \<Rightarrow> bool option" where
  "conn st j = map_option connected (sockets st j)"

definition cur :: "state \<Rightarrow> sid \<Rightarrow> room option" where
  "cur st j = (case sockets st j of None \<Rightarrow> None | Some s \<Rightarrow> currentRoom s)"

definition live_in_room :: "state \<Rightarrow> room \<Rightarrow> sid list" where
  "live_in_room st r =
     filter (\<lambda>j. case sockets st j of None \<Rightarrow> False | Some s \<Rightarrow> currentRoom s = Some r)
       (registry st)"

text \<open>
  The invariant behind the symmetry of pairing links: no socket has the empty
  identifier, registered sockets exist and are connected, at most one connection waits,
  a waiting connection is registered and unpaired, and every socket is either unpaired
  or paired on a non-empty channel with a registered partner whose own pairing points
  back on the same channel.
\<close>

definition pair_inv :: "state \<Rightarrow> bool" where
  "pair_inv st \<longleftrightarrow>
     conn st [] = None
   \<and> (\<forall>j \<in> set (registry st). conn st j = Some True)
   \<and> length (waitingQueue st) \<le> 1
   \<and> (\<forall>j \<in> set (waitingQueue st). j \<in> set (registry st) \<and> pairing st j = (None, None))
   \<and> (\<forall>j. pairing st j = (None, None) \<or>
         (\<exists>r b. r \<noteq> [] \<and> pairing st j = (Some r, Some b) \<and> j \<in> set (registry st)
            \<and> b \<in> set (registry st) \<and> pairing st b = (Some r, Some j)))"

text \<open>
  The invariant behind the presence counts: the registry has no duplicates and its
  sockets exist, no current room is the empty name, and each room's member set is
  non-empty, duplicate-free and holds exactly the live connections whose current room
  it is, while a room without a member set has no such connection.
\<close>

definition room_inv :: "state \<Rightarrow> bool" where
  "room_inv st \<longleftrightarrow>
     distinct (registry st)
   \<and> (\<forall>j \<in> set (registry st). sockets st j \<noteq> None)
   \<and> (\<forall>j. cur st j \<noteq> Some [])
   \<and> (\<forall>r. case roomMembers st r of
              None \<Rightarrow> live_in_room st r = []
            | Some m \<Rightarrow> m \<noteq> [] \<and> distinct m \<and> set m = set (live_in_room st r))"

text \<open>
  The state in which the first part of a join of room \<open>R\<close> by socket \<open>i\<close> suspends.
\<close>

definition join_state :: "state \<Rightarrow> sid \<Rightarrow> room \<Rightarrow> state" where
  "join_state st i R =
     joinRoom (upd_socket i (\<lambda>s. s\<lparr>currentRoom := Some R\<rparr>) (fst (leave_current st i))) i R"


text \<open>
  \<open>has_left st i\<close>: socket \<open>i\<close>, if it has a current room, is neither in that room's
  member set nor in its adapter room, and the member set is absent or non-empty.
\<close>

definition has_left :: "state \<Rightarrow> sid \<Rightarrow> bool" where
  "has_left st i \<longleftrightarrow>
     (case sockets st i of
        None \<Rightarrow> True
      | Some s \<Rightarrow>
          (case if_truthy (currentRoom s) of
             None \<Rightarrow> True
           | Some r \<Rightarrow> r \<notin> set (rooms s) \<and>
               (case roomMembers st r of None \<Rightarrow> True | Some m \<Rightarrow> i \<notin> set m \<and> m \<noteq> [])))"

section \<open>Example states and runs\<close>

text \<open>
  \<open>st_lobby\<close>: alice is connected and has joined no room. \<open>st_dev\<close>: alice and bob are
  both in room \<open>dev\<close>. \<open>st_paired\<close>: alice and bob are paired on channel \<open>stranger-x\<close>.
  \<open>st_stale\<close>: alice is connected and the waiting queue holds two identifiers that the
  transport does not know. \<open>st_gone\<close>: as \<open>st_paired\<close>, but bob is no longer known to
  the transport.
\<close>

definition sock :: "string \<Rightarrow> room list \<Rightarrow> room option \<Rightarrow> sid option \<Rightarrow> room option \<Rightarrow> socket" where
  "sock u rs sr p cr =
     \<lparr>username = u, connected = True, rooms = rs, strangerRoom = sr, partnerId = p,
      currentRoom = cr\<rparr>"

definition st_lobby :: state where
  "st_lobby =
     \<lparr>waitingQueue = [], roomMembers = Map.empty,
      sockets = [''a'' \<mapsto> sock ''alice'' [''a''] None None None],
      registry = [''a'']\<rparr>"

definition st_dev :: state where
  "st_dev =
     \<lparr>waitingQueue = [], roomMembers = [''dev'' \<mapsto> [''a'', ''b'']],
      sockets = [''a'' \<mapsto> sock ''alice'' [''a'', ''dev''] None None (Some ''dev''),
                 ''b'' \<mapsto> sock ''bob'' [''b'', ''dev''] None None (Some ''dev'')],
      registry = [''a'', ''b'']\<rparr>"


definition st_stale :: state where
  "st_stale = st_lobby\<lparr>waitingQueue := [''z'', ''y'']\<rparr>"


definition msg :: "string \<Rightarrow> room \<Rightarrow> int \<Rightarrow> message" where
  "msg k r t =
     \<lparr>msg_id = k, msg_username = ''bob'', msg_room = r, msg_text = ''hello'', msg_ts = t\<rparr>"

definition db_example :: "message list" where
  "db_example = [msg ''1'' ''dev'' 9, msg ''2'' ''ops'' 3, msg ''3'' ''dev'' 5]"

text \<open>
  Runs from the initial state. Alice connects (\<open>run_alice\<close>), asks for a stranger
  (\<open>run_waiting\<close>) and asks again (\<open>run_self\<close>). Or, after connecting, she joins with
  the room \<^verbatim>\<open>[]\<close> (\<open>run_empty\<close>) and then either joins \<open>dev\<close> (\<open>run_dev\<close>) or
  disconnects (\<open>run_closed\<close>). Or bob connects too (\<open>run_both\<close>), alice asks for a
  stranger (\<open>run_both_waiting\<close>) and then bob does (\<open>run_both_paired\<close>); or
  instead alice joins \<open>dev\<close> (\<open>run_both_a_dev\<close>) and then bob does (\<open>run_both_dev\<close>).
\<close>

definition room_payload :: "string \<Rightarrow> jsval" where
  "room_payload r = JObj [(''room'', JStr r)]"

definition run_alice :: state where
  "run_alice = fst (on_connection (transport_open init_state ''a'') ''a'' (Some ''alice''))"

definition run_waiting :: state where
  "run_waiting = fst (findStranger_handler run_alice ''a'' ''n1'')"

definition run_self :: state where
  "run_self = fst (findStranger_handler run_waiting ''a'' ''n2'')"

definition run_empty :: state where
  "run_empty = after_join run_alice ''a'' (JObj [(''room'', JArr [])])"

definition run_dev :: state where
  "run_dev = after_join run_empty ''a'' (room_payload ''dev'')"

definition run_closed :: state where
  "run_closed = fst (disconnect_handler (transport_close run_empty ''a'') ''a'')"

definition run_both :: state where
  "run_both = fst (on_connection (transport_open run_alice ''b'') ''b'' (Some ''bob''))"

definition run_both_waiting :: state where
  "run_both_waiting = fst (findStranger_handler run_both ''a'' ''n1'')"

definition run_both_paired :: state where
  "run_both_paired = fst (findStranger_handler run_both_waiting ''b'' ''n2'')"

definition run_both_a_dev :: state where
  "run_both_a_dev = after_join run_both ''a'' (room_payload ''dev'')"

definition run_both_dev :: state where
  "run_both_dev = after_join run_both_a_dev ''b'' (room_payload ''dev'')"

text \<open>
  Alice, connected, joins \<open>ops\<close> (\<open>run_ops\<close>) and, before the read of that join
  has returned, joins \<open>dev\<close> (\<open>run_ops_dev\<close>).
\<close>

definition run_ops :: state where
  "run_ops = after_join run_alice ''a'' (room_payload ''ops'')"

definition run_ops_dev :: state where
  "run_ops_dev = after_join run_ops ''a'' (room_payload ''dev'')"






section \<open>Basic facts about the helpers\<close>

lemma sockets_upd_socket:
  "sockets (upd_socket i f st) = (sockets st)(i := map_option f (sockets st i))"
  by (auto simp: upd_socket_def split: option.splits)

lemma other_upd_socket:
  "registry (upd_socket i f st) = registry st"
  "waitingQueue (upd_socket i f st) = waitingQueue st"
  "roomMembers (upd_socket i f st) = roomMembers st"
  by (auto simp: upd_socket_def split: option.splits)


lemmas step_defs = set_add_def set_delete_def upd_socket_def io_get_def
  socket_join_def socket_leave_def transport_open_def transport_close_def
  joinRoom_def leaveRoom_def getUserCount_def on_connection_def leave_current_def
  recent_history_def join_resume_def join_sync_def after_join_def effective_room_def
  room_payload_def
  clear_pairing_def handleStrangerLeave_def leave_if_paired_def findStranger_handler_def
  leaveStranger_handler_def disconnect_handler_def init_state_def safeRoom_def Let_def

lemma upd_socket_same: "sockets st i = Some s \<Longrightarrow> f s = s \<Longrightarrow> upd_socket i f st = st"
  by (simp add: upd_socket_def fun_upd_idem)

lemma sockets_socket_join:
  "sockets (socket_join i r st) = (sockets st)(i := map_option (\<lambda>s. s\<lparr>rooms := set_add r (rooms s)\<rparr>) (sockets st i))"
  by (simp add: socket_join_def sockets_upd_socket)

lemma sockets_socket_leave:
  "sockets (socket_leave i r st) = (sockets st)(i := map_option (\<lambda>s. s\<lparr>rooms := set_delete r (rooms s)\<rparr>) (sockets st i))"
  by (simp add: socket_leave_def sockets_upd_socket)

lemma other_socket_join:
  "registry (socket_join i r st) = registry st"
  "waitingQueue (socket_join i r st) = waitingQueue st"
  "roomMembers (socket_join i r st) = roomMembers st"
  by (simp_all add: socket_join_def other_upd_socket)

lemma other_socket_leave:
  "registry (socket_leave i r st) = registry st"
  "waitingQueue (socket_leave i r st) = waitingQueue st"
  "roomMembers (socket_leave i r st) = roomMembers st"
  by (simp_all add: socket_leave_def other_upd_socket)

lemma sockets_leaveRoom:
  "sockets (leaveRoom st i room) =
     (case if_truthy room of None \<Rightarrow> sockets st
      | Some r \<Rightarrow> (sockets st)(i := map_option (\<lambda>s. s\<lparr>rooms := set_delete r (rooms s)\<rparr>) (sockets st i)))"
  by (simp add: leaveRoom_def sockets_socket_leave Let_def split: option.splits)

lemma other_leaveRoom:
  "registry (leaveRoom st i room) = registry st"
  "waitingQueue (leaveRoom st i room) = waitingQueue st"
  by (simp_all add: leaveRoom_def other_socket_leave Let_def split: option.splits)

lemma sockets_joinRoom:
  "sockets (joinRoom st i r) = (sockets st)(i := map_option (\<lambda>s. s\<lparr>rooms := set_add r (rooms s)\<rparr>) (sockets st i))"
  by (simp add: joinRoom_def sockets_socket_join Let_def)

lemma alive_conn: "alive st j \<longleftrightarrow> j \<in> set (registry st) \<and> conn st j = Some True"
  by (auto simp: alive_def io_get_def conn_def split: option.splits)

lemma conn_exists: "conn st j = Some c \<Longrightarrow> \<exists>s. sockets st j = Some s \<and> connected s = c"
  by (auto simp: conn_def)

lemma pairing_upd_socket:
  "pairing (upd_socket j f st) =
     (pairing st)(j := (case sockets st j of None \<Rightarrow> (None, None)
                        | Some s \<Rightarrow> (strangerRoom (f s), partnerId (f s))))"
  by (rule ext) (simp add: pairing_def sockets_upd_socket split: option.splits)

lemma conn_upd_socket:
  "conn (upd_socket j f st) = (conn st)(j := map_option (\<lambda>s. connected (f s)) (sockets st j))"
  by (rule ext) (simp add: conn_def sockets_upd_socket option.map_comp comp_def)

lemma pairing_rooms_only:
  "pairing (socket_join j r st) = pairing st"
  "pairing (socket_leave j r st) = pairing st"
  "conn (socket_join j r st) = conn st"
  "conn (socket_leave j r st) = conn st"
  by (rule ext, simp add: pairing_def conn_def sockets_socket_join sockets_socket_leave
        option.map_comp comp_def split: option.splits)+

lemma proj_queue_update:
  "pairing (st\<lparr>waitingQueue := q\<rparr>) = pairing st"
  "conn (st\<lparr>waitingQueue := q\<rparr>) = conn st"
  "pairing (st\<lparr>roomMembers := m\<rparr>) = pairing st"
  "conn (st\<lparr>roomMembers := m\<rparr>) = conn st"
  "pairing (st\<lparr>registry := g\<rparr>) = pairing st"
  "conn (st\<lparr>registry := g\<rparr>) = conn st"
  by (rule ext, simp add: pairing_def conn_def)+

lemma leaveRoom_proj:
  "pairing (leaveRoom st i room) = pairing st"
  "conn (leaveRoom st i room) = conn st"
  by (simp_all add: leaveRoom_def pairing_rooms_only proj_queue_update Let_def split: option.splits)

lemma joinRoom_proj:
  "pairing (joinRoom st i r) = pairing st"
  "conn (joinRoom st i r) = conn st"
  "registry (joinRoom st i r) = registry st"
  "waitingQueue (joinRoom st i r) = waitingQueue st"
  by (simp_all add: joinRoom_def pairing_rooms_only proj_queue_update other_socket_join Let_def)

subsection \<open>Leaving the current room\<close>

lemma leave_current_socket:
  assumes "sockets st i = Some s"
  shows "\<exists>s'. sockets (fst (leave_current st i)) i = Some s' \<and> username s' = username s
           \<and> connected s' = connected s \<and> strangerRoom s' = strangerRoom s
           \<and> partnerId s' = partnerId s \<and> currentRoom s' = currentRoom s"
  using assms
  by (cases "if_truthy (currentRoom s)")
     (simp_all add: leave_current_def sockets_leaveRoom Let_def)


lemma leave_current_proj:
  "pairing (fst (leave_current st i)) = pairing st"
  "conn (fst (leave_current st i)) = conn st"
  "registry (fst (leave_current st i)) = registry st"
  "waitingQueue (fst (leave_current st i)) = waitingQueue st"
  by (simp_all add: leave_current_def leaveRoom_proj other_leaveRoom Let_def split: option.splits)

lemma leave_current_out:
  assumes "leave_current st i = (st', out)"
  shows "out = (case sockets st i of
          None \<Rightarrow> []
        | Some s \<Rightarrow>
            (case if_truthy (currentRoom s) of
               None \<Rightarrow> []
             | Some r \<Rightarrow>
                 [Emit (ToRoom r) (SystemMessage (LeftRoom (username s))),
                  Emit (ToRoom r) (Presence r (getUserCount st' r))]))"
  using assms by (auto simp: leave_current_def Let_def split: option.splits)

lemma has_left_fixed:
  assumes "has_left st i"
  shows "fst (leave_current st i) = st"
proof (cases "sockets st i")
  case None
  then show ?thesis by (simp add: leave_current_def)
next
  case (Some s)
  show ?thesis
  proof (cases "if_truthy (currentRoom s)")
    case None
    with Some show ?thesis by (simp add: leave_current_def)
  next
    case r: (Some r)
    from assms Some r have nr: "r \<notin> set (rooms s)"
      and m: "case roomMembers st r of None \<Rightarrow> True | Some m \<Rightarrow> i \<notin> set m \<and> m \<noteq> []"
      by (simp_all add: has_left_def)
    have a: "socket_leave i r st = st"
      using Some nr by (simp add: socket_leave_def set_delete_def upd_socket_same)
    have "leaveRoom st i (currentRoom s) = st"
      using r m a
      by (cases "roomMembers st r") (simp_all add: leaveRoom_def set_delete_def Let_def fun_upd_idem)
    with Some r show ?thesis by (simp add: leave_current_def Let_def)
  qed
qed

lemma has_left_leave_current: "has_left (fst (leave_current st i)) i"
proof (cases "sockets st i")
  case None
  then show ?thesis by (simp add: leave_current_def has_left_def)
next
  case (Some s)
  show ?thesis
  proof (cases "if_truthy (currentRoom s)")
    case None
    with Some show ?thesis by (simp add: leave_current_def has_left_def)
  next
    case r: (Some r)
    with Some show ?thesis
      by (cases "roomMembers st r")
         (simp_all add: leave_current_def has_left_def leaveRoom_def sockets_socket_leave
            other_socket_leave set_delete_def Let_def)
  qed
qed

lemma has_left_queue: "has_left (st\<lparr>waitingQueue := q\<rparr>) i = has_left st i"
  by (simp add: has_left_def split: option.splits)

subsection \<open>Tearing down a pairing\<close>

lemma hsl_other:
  "registry (fst (handleStrangerLeave st l)) = registry st"
  "waitingQueue (fst (handleStrangerLeave st l)) = waitingQueue st"
  "roomMembers (fst (handleStrangerLeave st l)) = roomMembers st"
  by (simp_all add: handleStrangerLeave_def other_upd_socket other_socket_leave Let_def
      split: option.splits prod.splits)

lemma hsl_conn: "conn (fst (handleStrangerLeave st l)) = conn st"
  by (rule ext)
     (simp add: conn_def handleStrangerLeave_def sockets_upd_socket sockets_socket_leave
        other_upd_socket other_socket_leave clear_pairing_def Let_def option.map_comp comp_def
        split: option.splits prod.splits)

lemma hsl_pairing:
  assumes "sockets st l = Some s" and "if_truthy (strangerRoom s) = Some r"
  shows "pairing (fst (handleStrangerLeave st l)) =
           (\<lambda>j. if j = l \<or> (if_truthy (partnerId s) = Some j \<and> io_get st j \<noteq> None)
                then (None, None) else pairing st j)"
  using assms
  by (intro ext)
     (auto simp: pairing_def handleStrangerLeave_def sockets_upd_socket sockets_socket_leave
        other_upd_socket other_socket_leave clear_pairing_def Let_def
        split: option.splits prod.splits)

lemma hsl_socket:
  assumes "sockets (fst (handleStrangerLeave st l)) j = Some s'"
  shows "\<exists>s. sockets st j = Some s \<and> currentRoom s' = currentRoom s
           \<and> username s' = username s \<and> set (rooms s') \<subseteq> set (rooms s)"
  using assms
  by (auto simp: handleStrangerLeave_def sockets_upd_socket sockets_socket_leave
      other_upd_socket other_socket_leave clear_pairing_def set_delete_def Let_def
      split: option.splits prod.splits if_splits)

lemma lip_other:
  "registry (fst (leave_if_paired st l)) = registry st"
  "waitingQueue (fst (leave_if_paired st l)) = waitingQueue st"
  "roomMembers (fst (leave_if_paired st l)) = roomMembers st"
  "conn (fst (leave_if_paired st l)) = conn st"
  by (simp_all add: leave_if_paired_def hsl_other hsl_conn split: option.splits)

lemma lip_socket:
  assumes "sockets (fst (leave_if_paired st l)) j = Some s'"
  shows "\<exists>s. sockets st j = Some s \<and> currentRoom s' = currentRoom s
           \<and> username s' = username s \<and> set (rooms s') \<subseteq> set (rooms s)"
  using assms hsl_socket [of st l j s']
  by (auto simp: leave_if_paired_def split: option.splits)

lemma lip_socket_fwd:
  assumes "sockets st j = Some s"
  shows "\<exists>s'. sockets (fst (leave_if_paired st l)) j = Some s'
           \<and> currentRoom s' = currentRoom s \<and> username s' = username s"
proof -
  have "conn (fst (leave_if_paired st l)) j = conn st j" by (simp add: lip_other)
  with assms obtain s' where s': "sockets (fst (leave_if_paired st l)) j = Some s'"
    by (auto simp: conn_def)
  from lip_socket [OF s'] assms s' show ?thesis by auto
qed

lemma lip_pairing_gen:
  "pairing (fst (leave_if_paired st l)) =
     (case pairing st l of
        (Some r, pb) \<Rightarrow>
          if r = [] then pairing st
          else (\<lambda>j. if j = l \<or> (if_truthy pb = Some j \<and> j \<in> set (registry st)
                          \<and> conn st j \<noteq> None)
                    then (None, None) else pairing st j)
      | (None, pb) \<Rightarrow> pairing st)"
proof (cases "sockets st l")
  case None
  then show ?thesis by (simp add: leave_if_paired_def pairing_def)
next
  case (Some s)
  show ?thesis
  proof (cases "if_truthy (strangerRoom s)")
    case None
    with Some show ?thesis
      by (cases "strangerRoom s") (simp_all add: leave_if_paired_def pairing_def split: if_splits)
  next
    case r: (Some r)
    then have sr: "strangerRoom s = Some r" "r \<noteq> []"
      by (cases "strangerRoom s"; simp split: if_splits)+
    have "pairing st l = (Some r, partnerId s)"
      using Some sr by (simp add: pairing_def)
    with Some r sr show ?thesis
      by (auto simp: leave_if_paired_def hsl_pairing [OF Some r] io_get_def conn_def fun_eq_iff)
  qed
qed

lemma lip_twice:
  "leave_if_paired (fst (leave_if_paired st i)) i = (fst (leave_if_paired st i), [])"
proof -
  let ?st' = "fst (leave_if_paired st i)"
  have "if_truthy (fst (pairing ?st' i)) = None"
    by (auto simp: lip_pairing_gen split: prod.splits option.splits)
  then show ?thesis
    by (simp add: leave_if_paired_def pairing_def split: option.splits)
qed

lemma has_left_lip:
  assumes "has_left st i"
  shows "has_left (fst (leave_if_paired st l)) i"
proof (cases "sockets (fst (leave_if_paired st l)) i")
  case None
  then show ?thesis by (simp add: has_left_def)
next
  case (Some s')
  from lip_socket [OF Some] obtain s where "sockets st i = Some s"
    "currentRoom s' = currentRoom s" "set (rooms s') \<subseteq> set (rooms s)" by blast
  with assms Some show ?thesis
    by (auto simp: has_left_def lip_other split: option.splits)
qed

subsection \<open>The other handlers\<close>

lemma join_sync_suspends:
  assumes "sockets st i = Some s" and "effective_room payload = Inr R"
    and "currentRoom s \<noteq> Some R"
  shows "join_sync st i payload = Inr (Suspended (join_state st i R) (snd (leave_current st i)))"
  using assms by (simp add: join_sync_def join_state_def Let_def split: prod.splits)


lemma join_throws:
  assumes "sockets st i = Some s" and "effective_room payload = Inl e"
  shows "join_sync st i payload = Inl e"
  using assms by (simp add: join_sync_def)

lemma after_join_cases:
  obtains (same) "after_join st i payload = st"
  | (joined) s R where "sockets st i = Some s" "effective_room payload = Inr R"
      "currentRoom s \<noteq> Some R" "after_join st i payload = join_state st i R"
proof (cases "sockets st i")
  case None
  then have "after_join st i payload = st" by (simp add: after_join_def join_sync_def)
  then show thesis by (rule same)
next
  case (Some s)
  show thesis
  proof (cases "effective_room payload")
    case (Inl e)
    with Some have "after_join st i payload = st" by (simp add: after_join_def join_sync_def)
    then show thesis by (rule same)
  next
    case (Inr R)
    show thesis
    proof (cases "currentRoom s = Some R")
      case True
      with Some Inr have "after_join st i payload = st"
        by (simp add: after_join_def join_sync_def)
      then show thesis by (rule same)
    next
      case False
      with Some Inr have "after_join st i payload = join_state st i R"
        by (simp add: after_join_def join_sync_suspends)
      with Some Inr False show thesis by (rule joined)
    qed
  qed
qed

lemma join_state_proj:
  "pairing (join_state st i R) = pairing st"
  "conn (join_state st i R) = conn st"
  "registry (join_state st i R) = registry st"
  "waitingQueue (join_state st i R) = waitingQueue st"
proof -
  have a: "pairing (upd_socket i (\<lambda>s. s\<lparr>currentRoom := c\<rparr>) st') = pairing st'" for c st'
    by (rule ext) (simp add: pairing_def sockets_upd_socket split: option.splits)
  have b: "conn (upd_socket i (\<lambda>s. s\<lparr>currentRoom := c\<rparr>) st') = conn st'" for c st'
    by (rule ext) (simp add: conn_def sockets_upd_socket option.map_comp comp_def)
  show "pairing (join_state st i R) = pairing st"
    "conn (join_state st i R) = conn st"
    "registry (join_state st i R) = registry st"
    "waitingQueue (join_state st i R) = waitingQueue st"
    by (simp_all add: join_state_def joinRoom_proj a b leave_current_proj other_upd_socket)
qed

lemma after_join_proj:
  "pairing (after_join st i payload) = pairing st"
  "conn (after_join st i payload) = conn st"
  "registry (after_join st i payload) = registry st"
  "waitingQueue (after_join st i payload) = waitingQueue st"
  by (cases rule: after_join_cases [where st = st and i = i and payload = payload];
      simp add: join_state_proj)+

lemma transport_close_proj:
  "registry (transport_close st i) = removeAll i (registry st)"
  "waitingQueue (transport_close st i) = waitingQueue st"
  "pairing (transport_close st i) = pairing st"
  "conn (transport_close st i) = (conn st)(i := map_option (\<lambda>_. False) (conn st i))"
  by (simp_all add: transport_close_def other_upd_socket set_delete_def pairing_upd_socket
      conn_upd_socket proj_queue_update fun_eq_iff conn_def pairing_def option.map_comp comp_def
      split: option.splits)

lemma disconnect_proj:
  "registry (fst (disconnect_handler st i)) = registry st"
  "waitingQueue (fst (disconnect_handler st i)) = removeAll i (waitingQueue st)"
  "conn (fst (disconnect_handler st i)) = conn st"
  "pairing (fst (disconnect_handler st i)) = pairing (fst (leave_if_paired st i))"
proof -
  obtain st1 out1 where lc: "leave_current st i = (st1, out1)" by (cases "leave_current st i")
  define st2 where "st2 = (if i \<in> set (waitingQueue st1)
                 then st1\<lparr>waitingQueue := set_delete i (waitingQueue st1)\<rparr> else st1)"
  have res: "fst (disconnect_handler st i) = fst (leave_if_paired st2 i)"
    by (simp add: disconnect_handler_def lc st2_def Let_def split: prod.splits)
  have v1: "pairing st1 = pairing st" "conn st1 = conn st" "registry st1 = registry st"
    "waitingQueue st1 = waitingQueue st"
    using leave_current_proj [of st i] lc by simp_all
  have v2: "pairing st2 = pairing st" "conn st2 = conn st" "registry st2 = registry st"
    "waitingQueue st2 = removeAll i (waitingQueue st)"
    by (simp_all add: st2_def v1 proj_queue_update set_delete_def)
  show "registry (fst (disconnect_handler st i)) = registry st"
    "waitingQueue (fst (disconnect_handler st i)) = removeAll i (waitingQueue st)"
    "conn (fst (disconnect_handler st i)) = conn st"
    by (simp_all add: res lip_other v2)
  show "pairing (fst (disconnect_handler st i)) = pairing (fst (leave_if_paired st i))"
    by (auto simp: res lip_pairing_gen v2 fun_eq_iff split: prod.splits option.splits)
qed

lemma disconnect_socket:
  "(sockets (fst (disconnect_handler st i)) i = None \<longleftrightarrow> sockets st i = None)
   \<and> (\<forall>s. sockets st i = Some s \<longrightarrow>
        (\<exists>s'. sockets (fst (disconnect_handler st i)) i = Some s'
           \<and> currentRoom s' = currentRoom s \<and> username s' = username s))"
proof -
  obtain st1 out1 where lc: "leave_current st i = (st1, out1)" by (cases "leave_current st i")
  define st2 where "st2 = (if i \<in> set (waitingQueue st1)
                 then st1\<lparr>waitingQueue := set_delete i (waitingQueue st1)\<rparr> else st1)"
  have res: "fst (disconnect_handler st i) = fst (leave_if_paired st2 i)"
    by (simp add: disconnect_handler_def lc st2_def Let_def split: prod.splits)
  have c: "conn (fst (disconnect_handler st i)) i = conn st i"
    by (simp add: disconnect_proj)
  have 2: "sockets st2 = sockets st1" by (simp add: st2_def)
  show ?thesis
  proof (intro conjI allI impI)
    have "conn (fst (disconnect_handler st i)) i = None \<longleftrightarrow> conn st i = None"
      by (simp only: c)
    then show "sockets (fst (disconnect_handler st i)) i = None \<longleftrightarrow> sockets st i = None"
      by (simp add: conn_def)
  next
    fix s assume s: "sockets st i = Some s"
    from leave_current_socket [OF s] lc obtain s1 where
      "sockets st1 i = Some s1" "currentRoom s1 = currentRoom s" "username s1 = username s"
      by auto
    with lip_socket_fwd [of st2 i s1 i] 2
    show "\<exists>s'. sockets (fst (disconnect_handler st i)) i = Some s'
           \<and> currentRoom s' = currentRoom s \<and> username s' = username s"
      by (auto simp: res)
  qed
qed

subsection \<open>History\<close>

lemma join_resume_history:
  assumes "sockets st i = Some s" and "currentRoom s = Some r"
  shows "join_resume st i db ! 0 = Emit (ToSocket i) (History (recent_history db r))"
  using assms by (simp add: join_resume_def)

lemma recent_history_room: "m \<in> set (recent_history db r) \<Longrightarrow> m \<in> set db \<and> msg_room m = r"
  by (auto simp: recent_history_def Let_def dest: in_set_dropD)

lemma recent_history_sorted: "sorted (map msg_ts (recent_history db r))"
  by (simp add: recent_history_def Let_def drop_map [symmetric])

lemma recent_history_length: "length (recent_history db r) \<le> 30"
  by (simp add: recent_history_def Let_def)

section \<open>The pairing invariant\<close>

lemma pair_inv_cong:
  assumes "conn st' = conn st" "registry st' = registry st"
    "waitingQueue st' = waitingQueue st" "pairing st' = pairing st"
  shows "pair_inv st' = pair_inv st"
  by (simp add: pair_inv_def assms)

lemma pairing_cases:
  assumes "pair_inv st"
  obtains (free) "pairing st j = (None, None)"
  | (linked) r b where "r \<noteq> []" "b \<noteq> []" "pairing st j = (Some r, Some b)"
      "j \<in> set (registry st)" "b \<in> set (registry st)" "pairing st b = (Some r, Some j)"
proof -
  from assms have
    "pairing st j = (None, None) \<or>
         (\<exists>r b. r \<noteq> [] \<and> pairing st j = (Some r, Some b) \<and> j \<in> set (registry st)
            \<and> b \<in> set (registry st) \<and> pairing st b = (Some r, Some j))"
    by (simp add: pair_inv_def)
  then show thesis
  proof
    assume "pairing st j = (None, None)" then show thesis by (rule free)
  next
    assume "\<exists>r b. r \<noteq> [] \<and> pairing st j = (Some r, Some b) \<and> j \<in> set (registry st)
            \<and> b \<in> set (registry st) \<and> pairing st b = (Some r, Some j)"
    then obtain r b where *: "r \<noteq> []" "pairing st j = (Some r, Some b)" "j \<in> set (registry st)"
      "b \<in> set (registry st)" "pairing st b = (Some r, Some j)" by blast
    from assms *(4) have "conn st b = Some True" "conn st [] = None"
      by (simp_all add: pair_inv_def)
    then have "b \<noteq> []" by auto
    with * show thesis by (rule_tac linked)
  qed
qed

lemma lip_pairing:
  assumes "pair_inv st"
  shows "pairing (fst (leave_if_paired st l)) =
     (case pairing st l of (Some r, Some b) \<Rightarrow> (pairing st)(b := (None, None), l := (None, None))
      | _ \<Rightarrow> pairing st)"
  using assms
proof (cases rule: pairing_cases [where j = l])
  case free
  then show ?thesis
    by (auto simp: leave_if_paired_def pairing_def handleStrangerLeave_def split: option.splits)
next
  case (linked r b)
  then obtain s where s: "sockets st l = Some s" "strangerRoom s = Some r" "partnerId s = Some b"
    by (auto simp: pairing_def split: option.splits)
  from linked assms have "conn st b = Some True" by (simp add: pair_inv_def)
  with linked have "io_get st b \<noteq> None" by (auto simp: io_get_def conn_def)
  with s linked show ?thesis
    by (auto simp: leave_if_paired_def hsl_pairing [where s = s and r = r])
qed

lemma pair_inv_teardown:
  assumes "pair_inv st"
  shows "pair_inv (fst (leave_if_paired st l))" (is "pair_inv ?st'")
    and "pairing (fst (leave_if_paired st l)) l = (None, None)"
proof -
  note p = lip_pairing [OF assms, of l]
  from assms show free: "pairing ?st' l = (None, None)"
    by (cases rule: pairing_cases [where j = l]) (simp_all add: p)
  from assms show "pair_inv ?st'"
  proof (cases rule: pairing_cases [where j = l])
    case free
    with p have "pairing ?st' = pairing st" by simp
    with assms show ?thesis by (simp add: pair_inv_def lip_other)
  next
    case (linked r b)
    with p have p': "pairing ?st' = (pairing st)(b := (None, None), l := (None, None))" by simp
    have "pairing ?st' j = (None, None) \<or>
         (\<exists>r b. r \<noteq> [] \<and> pairing ?st' j = (Some r, Some b) \<and> j \<in> set (registry st)
            \<and> b \<in> set (registry st) \<and> pairing ?st' b = (Some r, Some j))" for j
      using assms by (cases rule: pairing_cases [where j = j]) (use linked in \<open>auto simp: p'\<close>)
    moreover have "\<forall>j \<in> set (waitingQueue st). pairing ?st' j = (None, None)"
      using assms by (auto simp: p' pair_inv_def)
    ultimately show ?thesis using assms by (simp add: pair_inv_def lip_other)
  qed
qed

lemma pair_inv_init: "pair_inv init_state"
  by (simp add: pair_inv_def init_state_def conn_def pairing_def)

lemma pair_inv_join: "pair_inv st \<Longrightarrow> pair_inv (after_join st i payload)"
  by (simp add: pair_inv_cong [OF after_join_proj(2,3,4,1)])

lemma pair_inv_leaveStranger:
  assumes "pair_inv st"
  shows "pair_inv (fst (leaveStranger_handler st i))"
proof (cases "i \<in> set (waitingQueue st)")
  case True
  with assms show ?thesis
    by (auto simp: leaveStranger_handler_def pair_inv_def proj_queue_update set_delete_def
        intro: le_trans [OF length_removeAll_less_eq])
next
  case False
  with assms show ?thesis
    by (simp add: leaveStranger_handler_def pair_inv_teardown)
qed

lemma pair_inv_findStranger:
  assumes inv: "pair_inv st" and reg: "i \<in> set (registry st)"
  shows "pair_inv (fst (findStranger_handler st i nid))"
proof -
  obtain st1 out1 where lip: "leave_if_paired st i = (st1, out1)"
    by (cases "leave_if_paired st i")
  have inv1: "pair_inv st1" and free: "pairing st1 i = (None, None)"
    using pair_inv_teardown [OF inv, of i] lip by simp_all
  have reg1: "i \<in> set (registry st1)"
    using lip_other(1) [of st i] lip reg by simp
  from inv1 reg1 have "conn st1 i = Some True"
    by (simp add: pair_inv_def)
  then obtain si where si: "sockets st1 i = Some si"
    by (auto dest: conn_exists)
  show ?thesis
  proof (cases "waitingQueue st1")
    case Nil
    then have "fst (findStranger_handler st i nid) = st1\<lparr>waitingQueue := [i]\<rparr>"
      by (simp add: findStranger_handler_def lip set_add_def)
    with inv1 free reg1 show ?thesis
      by (simp add: pair_inv_def proj_queue_update)
  next
    case (Cons p rest)
    with inv1 have rest: "rest = []" and p: "p \<in> set (registry st1)" "conn st1 p = Some True"
      and pfree: "pairing st1 p = (None, None)"
      by (auto simp: pair_inv_def)
    from p obtain ps where ps: "sockets st1 p = Some ps" "connected ps"
      by (auto dest: conn_exists)
    define r where "r = ''stranger-'' @ nid"
    have rne: "r \<noteq> []" by (simp add: r_def)
    define st5 where "st5 = upd_socket i (\<lambda>s. s\<lparr>strangerRoom := Some r, partnerId := Some p\<rparr>)
                  (upd_socket p (\<lambda>s. s\<lparr>strangerRoom := Some r, partnerId := Some i\<rparr>)
                    (socket_join i r (socket_join p r (st1\<lparr>waitingQueue := []\<rparr>))))"
    have res: "fst (findStranger_handler st i nid) = st5"
      using Cons rest p ps
      by (simp add: findStranger_handler_def lip set_delete_def io_get_def Let_def st5_def r_def)
    have q: "waitingQueue st5 = []" and g: "registry st5 = registry st1"
      by (simp_all add: st5_def other_upd_socket other_socket_join)
    have c: "conn st5 = conn st1"
      using ps si
      by (intro ext)
         (auto simp: st5_def conn_upd_socket pairing_rooms_only proj_queue_update
            sockets_upd_socket sockets_socket_join conn_def)
    have pr: "pairing st5 = (pairing st1)(p := (Some r, Some i), i := (Some r, Some p))"
      using ps si
      by (intro ext)
         (auto simp: st5_def pairing_upd_socket pairing_rooms_only proj_queue_update
            sockets_upd_socket sockets_socket_join)
    have sym: "pairing st5 j = (None, None) \<or>
         (\<exists>r b. r \<noteq> [] \<and> pairing st5 j = (Some r, Some b) \<and> j \<in> set (registry st1)
            \<and> b \<in> set (registry st1) \<and> pairing st5 b = (Some r, Some j))" for j
      using inv1
      by (cases rule: pairing_cases [where j = j])
         (use free pfree p reg1 rne in \<open>auto simp: pr\<close>)
    from inv1 sym show ?thesis
      by (simp add: res pair_inv_def q g c)
  qed
qed

lemma pair_inv_connect:
  assumes inv: "pair_inv st" and "i \<noteq> []" and new: "sockets st i = None"
  shows "pair_inv (fst (on_connection (transport_open st i) i sess_user))" (is "pair_inv ?st'")
proof -
  have ni: "i \<notin> set (registry st)"
    using inv new by (auto simp: pair_inv_def conn_def)
  have pr: "pairing ?st' = pairing st"
    using new
    by (intro ext)
       (auto simp: on_connection_def transport_open_def transport_close_def pairing_def
          sockets_upd_socket split: option.splits)
  have q: "waitingQueue ?st' = waitingQueue st"
    by (simp add: on_connection_def transport_open_def transport_close_def other_upd_socket
        split: option.splits)
  have g: "set (registry ?st') \<subseteq> insert i (set (registry st))"
        "set (registry st) - {i} \<subseteq> set (registry ?st')"
    by (auto simp: on_connection_def transport_open_def transport_close_def other_upd_socket
        set_add_def set_delete_def split: option.splits)
  have c: "conn ?st' j = (if j = i then (if sess_user = None then Some False else Some True)
                          else conn st j)" for j
    by (auto simp: on_connection_def transport_open_def transport_close_def conn_def
          sockets_upd_socket split: option.splits)
  have gi: "sess_user = None \<Longrightarrow> i \<notin> set (registry ?st')"
    by (auto simp: on_connection_def transport_open_def transport_close_def other_upd_socket
        set_add_def set_delete_def)
  have sym: "pairing st j = (None, None) \<or>
         (\<exists>r b. r \<noteq> [] \<and> pairing st j = (Some r, Some b) \<and> j \<in> set (registry ?st')
            \<and> b \<in> set (registry ?st') \<and> pairing st b = (Some r, Some j))" for j
    using inv
    by (cases rule: pairing_cases [where j = j]) (use ni g in \<open>auto\<close>)
  have live: "\<forall>j \<in> set (registry ?st'). conn ?st' j = Some True"
    using inv g gi by (auto simp: c pair_inv_def)
  have wq: "\<forall>j \<in> set (waitingQueue st). j \<in> set (registry ?st') \<and> pairing st j = (None, None)"
    using inv ni g by (auto simp: pair_inv_def)
  from inv assms(2) live wq sym show ?thesis
    by (simp add: pair_inv_def pr q c)
qed

lemma pair_inv_disconnect:
  assumes inv: "pair_inv st" and reg: "i \<in> set (registry st)"
  shows "pair_inv (fst (disconnect_handler (transport_close st i) i))" (is "pair_inv ?st'")
proof -
  let ?st0 = "transport_close st i"
  from inv reg have ci: "conn st i = Some True" by (simp add: pair_inv_def)
  have g: "registry ?st' = removeAll i (registry st)"
    and q: "waitingQueue ?st' = removeAll i (waitingQueue st)"
    and c: "conn ?st' = (conn st)(i \<mapsto> False)"
    by (simp_all add: disconnect_proj transport_close_proj ci)
  have pr0: "pairing ?st' = pairing (fst (leave_if_paired ?st0 i))"
    by (simp add: disconnect_proj)
  have pr: "pairing ?st' =
     (case pairing st i of (Some r, Some b) \<Rightarrow> (pairing st)(b := (None, None), i := (None, None))
      | _ \<Rightarrow> pairing st)"
    using inv
  proof (cases rule: pairing_cases [where j = i])
    case free
    then show ?thesis by (simp add: pr0 lip_pairing_gen transport_close_proj)
  next
    case (linked r b)
    from inv linked have "conn st b = Some True" by (simp add: pair_inv_def)
    with linked show ?thesis
      by (auto simp: pr0 lip_pairing_gen transport_close_proj fun_eq_iff)
  qed
  have sym: "pairing ?st' j = (None, None) \<or>
         (\<exists>r b. r \<noteq> [] \<and> pairing ?st' j = (Some r, Some b) \<and> j \<in> set (registry ?st')
            \<and> b \<in> set (registry ?st') \<and> pairing ?st' b = (Some r, Some j))" for j
    using inv
  proof (cases rule: pairing_cases [where j = i])
    case free
    then have p: "pairing ?st' = pairing st" by (simp add: pr)
    from inv show ?thesis
      by (cases rule: pairing_cases [where j = j]) (use free in \<open>auto simp: p g\<close>)
  next
    case (linked r b)
    then have p: "pairing ?st' = (pairing st)(b := (None, None), i := (None, None))"
      by (simp add: pr)
    from inv show ?thesis
      by (cases rule: pairing_cases [where j = j]) (use linked in \<open>auto simp: p g\<close>)
  qed
  have wq: "\<forall>j \<in> set (waitingQueue ?st'). j \<in> set (registry ?st') \<and> pairing ?st' j = (None, None)"
    using inv by (auto simp: q g pr pair_inv_def split: prod.splits option.splits)
  have len: "length (waitingQueue ?st') \<le> 1"
  proof -
    have "length (removeAll i (waitingQueue st)) \<le> length (waitingQueue st)"
      by (rule length_removeAll_less_eq)
    also from inv have "\<dots> \<le> 1" by (simp add: pair_inv_def)
    finally show ?thesis by (simp add: q)
  qed
  have live: "\<forall>j \<in> set (registry ?st'). conn ?st' j = Some True"
    using inv by (auto simp: g c pair_inv_def)
  have e: "conn ?st' [] = None"
    using inv ci by (auto simp: c pair_inv_def)
  from e live len wq sym show ?thesis
    unfolding pair_inv_def by blast
qed

lemma reachable_pair_inv: "reachable st \<Longrightarrow> pair_inv st"
proof (induction rule: reachable.induct)
  case r_init
  show ?case by (rule pair_inv_init)
next
  case (r_connect st i sess_user)
  then show ?case by (simp add: pair_inv_connect)
next
  case (r_join st i payload)
  then show ?case by (simp add: pair_inv_join)
next
  case (r_findStranger st i nid)
  then show ?case by (simp add: pair_inv_findStranger)
next
  case (r_leaveStranger st i)
  then show ?case by (simp add: pair_inv_leaveStranger)
next
  case (r_disconnect st i)
  then show ?case by (simp add: pair_inv_disconnect)
qed

section \<open>Room membership when no room name is empty\<close>

text \<open>
  In the states reached by joins whose effective room name is not empty, the member
  sets and the current rooms of the live connections agree: \<open>named_count\<close> and
  \<open>named_one_room\<close> below. \<open>join_same_room\<close> and \<open>join_switch\<close> describe a join from a
  room with a non-empty name.
\<close>

lemma set_live_in_room: "set (live_in_room st r) = {j \<in> set (registry st). cur st j = Some r}"
  by (auto simp: live_in_room_def cur_def split: option.splits)

lemma distinct_live_in_room: "distinct (registry st) \<Longrightarrow> distinct (live_in_room st r)"
  by (simp add: live_in_room_def)

lemma live_in_room_Nil: "live_in_room st r = [] \<longleftrightarrow> {j \<in> set (registry st). cur st j = Some r} = {}"
  using set_live_in_room [of st r] by (metis set_empty)

lemma room_inv_alt:
  "room_inv st \<longleftrightarrow>
     distinct (registry st)
   \<and> (\<forall>j \<in> set (registry st). sockets st j \<noteq> None)
   \<and> (\<forall>j. cur st j \<noteq> Some [])
   \<and> (\<forall>r. case roomMembers st r of
              None \<Rightarrow> {j \<in> set (registry st). cur st j = Some r} = {}
            | Some m \<Rightarrow> m \<noteq> [] \<and> distinct m
                \<and> set m = {j \<in> set (registry st). cur st j = Some r})"
  by (simp add: room_inv_def set_live_in_room live_in_room_Nil split: option.splits)

lemma room_inv_count:
  assumes "room_inv st"
  shows "getUserCount st r = length (live_in_room st r)"
proof (cases "roomMembers st r")
  case None
  with assms show ?thesis
    by (auto simp: room_inv_def getUserCount_def dest: spec [where x = r])
next
  case (Some m)
  with assms have "distinct m" "set m = set (live_in_room st r)" "distinct (live_in_room st r)"
    by (auto simp: room_inv_def distinct_live_in_room dest: spec [where x = r])
  then have "length m = length (live_in_room st r)"
    by (metis distinct_card)
  with Some show ?thesis by (simp add: getUserCount_def)
qed

lemma room_inv_one_room:
  assumes "room_inv st" and "roomMembers st r = Some m" and "j \<in> set m"
    and "roomMembers st r' = Some m'" and "j \<in> set m'"
  shows "r = r'"
proof -
  from assms(1) have "\<forall>r. case roomMembers st r of
              None \<Rightarrow> {j \<in> set (registry st). cur st j = Some r} = {}
            | Some m \<Rightarrow> m \<noteq> [] \<and> distinct m
                \<and> set m = {j \<in> set (registry st). cur st j = Some r}"
    by (simp add: room_inv_alt)
  from spec [OF this, of r] spec [OF this, of r'] assms(2-5)
  have "cur st j = Some r" "cur st j = Some r'" by auto
  then show ?thesis by simp
qed

lemma room_invD:
  assumes "room_inv st"
  shows "distinct (registry st)"
    and "j \<in> set (registry st) \<Longrightarrow> sockets st j \<noteq> None"
    and "cur st j \<noteq> Some []"
    and "roomMembers st r = None \<Longrightarrow> j \<in> set (registry st) \<Longrightarrow> cur st j \<noteq> Some r"
    and "roomMembers st r = Some m \<Longrightarrow>
           m \<noteq> [] \<and> distinct m \<and> set m = {j \<in> set (registry st). cur st j = Some r}"
proof -
  from assms have a: "\<forall>r. case roomMembers st r of
              None \<Rightarrow> {j \<in> set (registry st). cur st j = Some r} = {}
            | Some m \<Rightarrow> m \<noteq> [] \<and> distinct m
                \<and> set m = {j \<in> set (registry st). cur st j = Some r}"
    by (simp add: room_inv_alt)
  from assms show "distinct (registry st)" "cur st j \<noteq> Some []"
    by (simp_all add: room_inv_alt)
  from assms show "j \<in> set (registry st) \<Longrightarrow> sockets st j \<noteq> None"
    by (simp add: room_inv_alt)
  from spec [OF a, of r]
  show "roomMembers st r = None \<Longrightarrow> j \<in> set (registry st) \<Longrightarrow> cur st j \<noteq> Some r"
    by auto
  from spec [OF a, of r]
  show "roomMembers st r = Some m \<Longrightarrow>
           m \<noteq> [] \<and> distinct m \<and> set m = {j \<in> set (registry st). cur st j = Some r}"
    by simp
qed

lemma room_invI:
  assumes "distinct (registry st)"
    and "\<And>j. j \<in> set (registry st) \<Longrightarrow> sockets st j \<noteq> None"
    and "\<And>j. cur st j \<noteq> Some []"
    and "\<And>r. roomMembers st r = None \<Longrightarrow> {j \<in> set (registry st). cur st j = Some r} = {}"
    and "\<And>r m. roomMembers st r = Some m \<Longrightarrow>
           m \<noteq> [] \<and> distinct m \<and> set m = {j \<in> set (registry st). cur st j = Some r}"
  shows "room_inv st"
  using assms by (auto simp: room_inv_alt split: option.splits)

lemma cur_upd_socket:
  "cur (upd_socket j f st) =
     (cur st)(j := (case sockets st j of None \<Rightarrow> None | Some s \<Rightarrow> currentRoom (f s)))"
  by (rule ext) (simp add: cur_def sockets_upd_socket split: option.splits)

lemma cur_upd_socket_same:
  "(\<And>s. currentRoom (f s) = currentRoom s) \<Longrightarrow> cur (upd_socket j f st) = cur st"
  by (rule ext) (simp add: cur_def sockets_upd_socket split: option.splits)

lemma cur_fields:
  "cur (st\<lparr>waitingQueue := q\<rparr>) = cur st"
  "cur (st\<lparr>roomMembers := m\<rparr>) = cur st"
  "cur (st\<lparr>registry := g\<rparr>) = cur st"
  by (rule ext, simp add: cur_def)+

lemma cur_rooms_only:
  "cur (socket_join j r st) = cur st"
  "cur (socket_leave j r st) = cur st"
  by (simp_all add: socket_join_def socket_leave_def cur_upd_socket_same)

lemma cur_leaveRoom: "cur (leaveRoom st i room) = cur st"
  by (simp add: leaveRoom_def cur_rooms_only cur_fields Let_def split: option.splits)

lemma cur_joinRoom: "cur (joinRoom st i r) = cur st"
  by (simp add: joinRoom_def cur_rooms_only cur_fields Let_def)

lemma roomMembers_leaveRoom:
  "roomMembers (leaveRoom st i room) =
     (case if_truthy room of
        None \<Rightarrow> roomMembers st
      | Some r \<Rightarrow>
          (case roomMembers st r of
             None \<Rightarrow> roomMembers st
           | Some m \<Rightarrow> if removeAll i m = [] then (roomMembers st)(r := None)
                       else (roomMembers st)(r \<mapsto> removeAll i m)))"
  by (simp add: leaveRoom_def other_socket_leave set_delete_def Let_def split: option.splits)

lemma roomMembers_joinRoom:
  "roomMembers (joinRoom st i r) =
     (roomMembers st)(r \<mapsto> set_add i (case roomMembers st r of None \<Rightarrow> [] | Some m \<Rightarrow> m))"
  by (simp add: joinRoom_def other_socket_join Let_def)

lemma leaveRoom_falsy: "if_truthy room = None \<Longrightarrow> leaveRoom st i room = st"
  by (simp add: leaveRoom_def)

lemma leave_current_rooms:
  "roomMembers (fst (leave_current st i)) = roomMembers (leaveRoom st i (cur st i))"
  "cur (fst (leave_current st i)) = cur st"
  by (simp_all add: leave_current_def cur_def cur_leaveRoom leaveRoom_falsy Let_def
      split: option.splits)

lemma lip_cur: "cur (fst (leave_if_paired st l)) = cur st"
proof (rule ext)
  fix j
  show "cur (fst (leave_if_paired st l)) j = cur st j"
  proof (cases "sockets (fst (leave_if_paired st l)) j")
    case None
    moreover have "conn (fst (leave_if_paired st l)) j = conn st j" by (simp add: lip_other)
    ultimately have "sockets st j = None" by (simp add: conn_def)
    with None show ?thesis by (simp add: cur_def)
  next
    case (Some s')
    from lip_socket [OF Some] Some show ?thesis by (auto simp: cur_def)
  qed
qed

lemma findStranger_rooms:
  "roomMembers (fst (findStranger_handler st i nid)) = roomMembers st"
  "cur (fst (findStranger_handler st i nid)) = cur st"
  "registry (fst (findStranger_handler st i nid)) = registry st"
  "conn (fst (findStranger_handler st i nid)) = conn st"
proof -
  obtain st1 out1 where lip: "leave_if_paired st i = (st1, out1)"
    by (cases "leave_if_paired st i")
  have 1: "roomMembers st1 = roomMembers st" "cur st1 = cur st" "registry st1 = registry st"
    "conn st1 = conn st"
    using lip_other [of st i] lip_cur [of st i] lip by simp_all
  have c: "conn (upd_socket j (\<lambda>s. s\<lparr>strangerRoom := a, partnerId := b\<rparr>) st') = conn st'"
    for j a b st'
    by (rule ext) (simp add: conn_def sockets_upd_socket option.map_comp comp_def)
  show "roomMembers (fst (findStranger_handler st i nid)) = roomMembers st"
    "cur (fst (findStranger_handler st i nid)) = cur st"
    "registry (fst (findStranger_handler st i nid)) = registry st"
    "conn (fst (findStranger_handler st i nid)) = conn st"
    by (simp_all add: findStranger_handler_def lip 1 Let_def other_upd_socket other_socket_join
        cur_upd_socket_same cur_rooms_only cur_fields c pairing_rooms_only proj_queue_update
        split: list.splits option.splits)
qed

lemma leaveStranger_rooms:
  "roomMembers (fst (leaveStranger_handler st i)) = roomMembers st"
  "cur (fst (leaveStranger_handler st i)) = cur st"
  "registry (fst (leaveStranger_handler st i)) = registry st"
  "conn (fst (leaveStranger_handler st i)) = conn st"
  by (simp_all add: leaveStranger_handler_def lip_other lip_cur cur_fields proj_queue_update)

lemma room_inv_cong:
  assumes "roomMembers st' = roomMembers st" "cur st' = cur st" "registry st' = registry st"
    "conn st' = conn st"
  shows "room_inv st' = room_inv st"
proof -
  have "sockets st' j = None \<longleftrightarrow> sockets st j = None" for j
    using assms(4) by (metis conn_def option.map_disc_iff)
  then show ?thesis by (simp add: room_inv_alt assms(1-3) split: option.splits)
qed

lemma room_inv_findStranger: "room_inv st \<Longrightarrow> room_inv (fst (findStranger_handler st i nid))"
  by (simp add: room_inv_cong [OF findStranger_rooms])

lemma room_inv_leaveStranger: "room_inv st \<Longrightarrow> room_inv (fst (leaveStranger_handler st i))"
  by (simp add: room_inv_cong [OF leaveStranger_rooms])

lemma room_inv_init: "room_inv init_state"
  by (simp add: room_inv_alt init_state_def cur_def)

lemma leaveRoom_members:
  assumes inv: "room_inv st" and reg: "i \<in> set (registry st)"
  defines "rm \<equiv> roomMembers (leaveRoom st i (cur st i))"
  shows "rm r = None \<Longrightarrow> {j \<in> set (registry st) - {i}. cur st j = Some r} = {}"
    and "rm r = Some m \<Longrightarrow>
           m \<noteq> [] \<and> distinct m \<and> set m = {j \<in> set (registry st) - {i}. cur st j = Some r}"
proof -
  show "rm r = None \<Longrightarrow> {j \<in> set (registry st) - {i}. cur st j = Some r} = {}"
  proof (cases "cur st i")
    case None
    assume "rm r = None"
    with None have "roomMembers st r = None" by (simp add: rm_def leaveRoom_falsy)
    with room_invD(4) [OF inv] show ?thesis by auto
  next
    case (Some r0)
    assume n: "rm r = None"
    from room_invD(3) [OF inv, of i] Some have r0: "r0 \<noteq> []" by auto
    from room_invD(4) [OF inv, of r0 i] reg Some obtain m0 where m0: "roomMembers st r0 = Some m0"
      by (cases "roomMembers st r0") auto
    note s0 = room_invD(5) [OF inv m0]
    show ?thesis
    proof (cases "r = r0")
      case True
      with n Some r0 m0 have "removeAll i m0 = []"
        by (simp add: rm_def roomMembers_leaveRoom split: if_splits)
      then have "set m0 - {i} = {}" by (metis set_removeAll set_empty)
      with s0 True show ?thesis by auto
    next
      case False
      with n Some r0 m0 have "roomMembers st r = None"
        by (simp add: rm_def roomMembers_leaveRoom split: if_splits)
      with room_invD(4) [OF inv] show ?thesis by auto
    qed
  qed
  show "rm r = Some m \<Longrightarrow>
           m \<noteq> [] \<and> distinct m \<and> set m = {j \<in> set (registry st) - {i}. cur st j = Some r}"
  proof (cases "cur st i")
    case None
    assume "rm r = Some m"
    with None have "roomMembers st r = Some m" by (simp add: rm_def leaveRoom_falsy)
    with room_invD(5) [OF inv this] None show ?thesis by auto
  next
    case (Some r0)
    assume n: "rm r = Some m"
    from room_invD(3) [OF inv, of i] Some have r0: "r0 \<noteq> []" by auto
    from room_invD(4) [OF inv, of r0 i] reg Some obtain m0 where m0: "roomMembers st r0 = Some m0"
      by (cases "roomMembers st r0") auto
    note s0 = room_invD(5) [OF inv m0]
    show ?thesis
    proof (cases "r = r0")
      case True
      with n Some r0 m0 have "m = removeAll i m0" "m \<noteq> []"
        by (auto simp: rm_def roomMembers_leaveRoom split: if_splits)
      with s0 True show ?thesis by (auto simp: distinct_removeAll)
    next
      case False
      with n Some r0 m0 have "roomMembers st r = Some m"
        by (simp add: rm_def roomMembers_leaveRoom split: if_splits)
      with room_invD(5) [OF inv this] Some False show ?thesis by auto
    qed
  qed
qed

lemma disconnect_rooms:
  "roomMembers (fst (disconnect_handler st i)) = roomMembers (leaveRoom st i (cur st i))"
  "cur (fst (disconnect_handler st i)) = cur st"
proof -
  obtain st1 out1 where lc: "leave_current st i = (st1, out1)" by (cases "leave_current st i")
  define st2 where "st2 = (if i \<in> set (waitingQueue st1)
                 then st1\<lparr>waitingQueue := set_delete i (waitingQueue st1)\<rparr> else st1)"
  have res: "fst (disconnect_handler st i) = fst (leave_if_paired st2 i)"
    by (simp add: disconnect_handler_def lc st2_def Let_def split: prod.splits)
  have 1: "roomMembers st1 = roomMembers (leaveRoom st i (cur st i))" "cur st1 = cur st"
    using leave_current_rooms [of st i] lc by simp_all
  have 2: "roomMembers st2 = roomMembers st1" "cur st2 = cur st1"
    by (simp_all add: st2_def cur_fields)
  show "roomMembers (fst (disconnect_handler st i)) = roomMembers (leaveRoom st i (cur st i))"
    "cur (fst (disconnect_handler st i)) = cur st"
    by (simp_all add: res lip_other lip_cur 1 2)
qed

lemma transport_close_rooms:
  "roomMembers (transport_close st i) = roomMembers st"
  "cur (transport_close st i) = cur st"
  by (simp_all add: transport_close_def other_upd_socket cur_upd_socket_same cur_fields)

lemma roomMembers_leaveRoom_cong:
  "roomMembers st' = roomMembers st \<Longrightarrow>
     roomMembers (leaveRoom st' i room) = roomMembers (leaveRoom st i room)"
  by (simp add: roomMembers_leaveRoom split: option.splits)

lemma room_inv_disconnect:
  assumes inv: "room_inv st" and reg: "i \<in> set (registry st)"
  shows "room_inv (fst (disconnect_handler (transport_close st i) i))" (is "room_inv ?st'")
proof (rule room_invI)
  have g: "registry ?st' = removeAll i (registry st)"
    by (simp add: disconnect_proj transport_close_proj)
  have c: "cur ?st' = cur st"
    by (simp add: disconnect_rooms transport_close_rooms)
  have rm: "roomMembers ?st' = roomMembers (leaveRoom st i (cur st i))"
    by (simp add: disconnect_rooms transport_close_rooms(2)
        roomMembers_leaveRoom_cong [OF transport_close_rooms(1)])
  have e: "conn ?st' j = None \<longleftrightarrow> conn st j = None" for j
    by (simp add: disconnect_proj transport_close_proj)
  show "distinct (registry ?st')"
    using room_invD(1) [OF inv] by (simp add: g distinct_removeAll)
  show "sockets ?st' j \<noteq> None" if "j \<in> set (registry ?st')" for j
    using that room_invD(2) [OF inv, of j] e [of j] by (simp add: g conn_def)
  show "cur ?st' j \<noteq> Some []" for j
    using room_invD(3) [OF inv] by (simp add: c)
  show "{j \<in> set (registry ?st'). cur ?st' j = Some r} = {}" if "roomMembers ?st' r = None" for r
    using leaveRoom_members(1) [OF inv reg, of r] that by (simp add: g c rm)
  show "m \<noteq> [] \<and> distinct m \<and> set m = {j \<in> set (registry ?st'). cur ?st' j = Some r}"
    if "roomMembers ?st' r = Some m" for r m
    using leaveRoom_members(2) [OF inv reg, of r m] that by (simp add: g c rm)
qed

lemma join_rooms:
  assumes "sockets st i = Some s"
  shows "roomMembers (join_state st i R) =
           (roomMembers (leaveRoom st i (cur st i)))(R \<mapsto>
              set_add i (case roomMembers (leaveRoom st i (cur st i)) R of
                           None \<Rightarrow> [] | Some m \<Rightarrow> m))"
    and "cur (join_state st i R) = (cur st)(i \<mapsto> R)"
proof -
  obtain st1 out1 where lc: "leave_current st i = (st1, out1)" by (cases "leave_current st i")
  have 1: "roomMembers st1 = roomMembers (leaveRoom st i (cur st i))" "cur st1 = cur st"
    using leave_current_rooms [of st i] lc by simp_all
  from leave_current_socket [OF assms(1)] lc obtain s1 where s1: "sockets st1 i = Some s1"
    by auto
  have res: "join_state st i R =
       joinRoom (upd_socket i (\<lambda>s. s\<lparr>currentRoom := Some R\<rparr>) st1) i R"
    by (simp add: join_state_def lc)
  show "roomMembers (join_state st i R) =
           (roomMembers (leaveRoom st i (cur st i)))(R \<mapsto>
              set_add i (case roomMembers (leaveRoom st i (cur st i)) R of
                           None \<Rightarrow> [] | Some m \<Rightarrow> m))"
    by (simp add: res roomMembers_joinRoom other_upd_socket 1)
  show "cur (join_state st i R) = (cur st)(i \<mapsto> R)"
    using s1 by (simp add: res cur_joinRoom cur_upd_socket 1)
qed

lemma room_inv_join_state:
  assumes inv: "room_inv st" and reg: "i \<in> set (registry st)" and ne: "R \<noteq> []"
    and s: "sockets st i = Some s" and False: "currentRoom s \<noteq> Some R"
  shows "room_inv (join_state st i R)" (is "room_inv ?st'")
proof -
  define rm where "rm = roomMembers (leaveRoom st i (cur st i))"
  have ci: "cur st i \<noteq> Some R" using s False by (simp add: cur_def)
  have g: "registry ?st' = registry st" by (simp add: join_state_proj)
  have c: "cur ?st' = (cur st)(i \<mapsto> R)"
    using join_rooms(2) [OF s] by simp
  have rm': "roomMembers ?st' = rm(R \<mapsto> set_add i (case rm R of None \<Rightarrow> [] | Some m \<Rightarrow> m))"
    using join_rooms(1) [OF s] by (simp add: rm_def)
  have e: "conn ?st' = conn st" by (simp add: join_state_proj)
  note lm = leaveRoom_members [OF inv reg, folded rm_def]
  show ?thesis
  proof (rule room_invI)
    show "distinct (registry ?st')" using room_invD(1) [OF inv] by (simp add: g)
    show "sockets ?st' j \<noteq> None" if "j \<in> set (registry ?st')" for j
    proof -
      have "conn ?st' j = None \<longleftrightarrow> conn st j = None" by (simp only: e)
      with that room_invD(2) [OF inv, of j] show ?thesis by (simp add: g conn_def)
    qed
    show "cur ?st' j \<noteq> Some []" for j
      using room_invD(3) [OF inv, of j] ne by (simp add: c)
    show "{j \<in> set (registry ?st'). cur ?st' j = Some r} = {}"
      if "roomMembers ?st' r = None" for r
    proof -
      from that have "r \<noteq> R" "rm r = None" by (auto simp: rm' split: if_splits)
      with lm(1) [of r] show ?thesis by (auto simp: g c)
    qed
    show "m \<noteq> [] \<and> distinct m \<and> set m = {j \<in> set (registry ?st'). cur ?st' j = Some r}"
      if "roomMembers ?st' r = Some m" for r m
    proof (cases "r = R")
      case True
      with that have m: "m = set_add i (case rm R of None \<Rightarrow> [] | Some m \<Rightarrow> m)"
        by (simp add: rm')
      show ?thesis
      proof (cases "rm R")
        case None
        with lm(1) [of R] m True reg show ?thesis
          by (auto simp: g c set_add_def)
      next
        case (Some m0)
        with lm(2) [of R m0] m True reg show ?thesis
          by (auto simp: g c set_add_def)
      qed
    next
      case False
      with that have "rm r = Some m" by (simp add: rm')
      with lm(2) [of r m] False show ?thesis by (auto simp: g c)
    qed
  qed
qed

lemma room_inv_join:
  assumes inv: "room_inv st" and reg: "i \<in> set (registry st)"
    and R: "effective_room payload = Inr R" and ne: "R \<noteq> []"
  shows "room_inv (after_join st i payload)"
proof (cases rule: after_join_cases [where st = st and i = i and payload = payload])
  case same
  with inv show ?thesis by simp
next
  case (joined s R')
  with R have "R' = R" by simp
  with joined room_inv_join_state [OF inv reg ne, of s] show ?thesis by simp
qed

lemma room_inv_connect:
  assumes inv: "room_inv st" and new: "sockets st i = None"
  shows "room_inv (fst (on_connection (transport_open st i) i sess_user))" (is "room_inv ?st'")
proof -
  have ni: "i \<notin> set (registry st)" using room_invD(2) [OF inv, of i] new by auto
  have rm: "roomMembers ?st' = roomMembers st"
    by (simp add: on_connection_def transport_open_def transport_close_def other_upd_socket
        split: option.splits)
  have c: "cur ?st' = cur st"
    using new
    by (intro ext)
       (auto simp: on_connection_def transport_open_def transport_close_def cur_def
          sockets_upd_socket split: option.splits)
  have g: "registry ?st' = (if sess_user = None then registry st else registry st @ [i])"
    using ni
    by (auto simp: on_connection_def transport_open_def transport_close_def other_upd_socket
        set_add_def set_delete_def)
  have e: "sockets ?st' j \<noteq> None" if "j = i \<or> sockets st j \<noteq> None" for j
    using that
    by (auto simp: on_connection_def transport_open_def transport_close_def sockets_upd_socket
        split: option.splits)
  have ci: "cur st i = None" using new by (simp add: cur_def)
  show ?thesis
  proof (rule room_invI)
    show "distinct (registry ?st')" using room_invD(1) [OF inv] ni by (simp add: g)
    show "sockets ?st' j \<noteq> None" if "j \<in> set (registry ?st')" for j
      using that room_invD(2) [OF inv, of j] e [of j] by (auto simp: g split: if_splits)
    show "cur ?st' j \<noteq> Some []" for j
      using room_invD(3) [OF inv] by (simp add: c)
    show "{j \<in> set (registry ?st'). cur ?st' j = Some r} = {}" if "roomMembers ?st' r = None" for r
      using room_invD(4) [OF inv, of r] that ci by (auto simp: g c rm)
    show "m \<noteq> [] \<and> distinct m \<and> set m = {j \<in> set (registry ?st'). cur ?st' j = Some r}"
      if "roomMembers ?st' r = Some m" for r m
      using room_invD(5) [OF inv, of r m] that ci by (auto simp: g c rm)
  qed
qed


lemma reachable_named_room_inv: "reachable_named st \<Longrightarrow> room_inv st"
  unfolding reachable_named_def
proof (induction rule: reachable_with.induct)
  case w_init
  show ?case by (rule room_inv_init)
next
  case (w_connect st i sess_user)
  then show ?case by (simp add: room_inv_connect)
next
  case (w_join st i payload R)
  then show ?case by (simp add: room_inv_join)
next
  case (w_findStranger st i nid)
  then show ?case by (simp add: room_inv_findStranger)
next
  case (w_leaveStranger st i)
  then show ?case by (simp add: room_inv_leaveStranger)
next
  case (w_disconnect st i)
  then show ?case by (simp add: room_inv_disconnect)
qed

lemma named_count:
  "reachable_named st \<Longrightarrow> getUserCount st r = length (live_in_room st r)"
  by (simp add: reachable_named_room_inv room_inv_count)

lemma named_one_room:
  "reachable_named st \<Longrightarrow> roomMembers st r = Some m \<Longrightarrow> j \<in> set m
     \<Longrightarrow> roomMembers st r' = Some m' \<Longrightarrow> j \<in> set m' \<Longrightarrow> r = r'"
  by (rule room_inv_one_room [OF reachable_named_room_inv])

lemma join_switch:
  assumes s: "sockets st i = Some s" and r0: "currentRoom s = Some r0" "r0 \<noteq> []"
    and R: "effective_room payload = Inr R" and ne: "R \<noteq> r0"
  shows "join_sync st i payload =
           Inr (Suspended (join_state st i R)
             [Emit (ToRoom r0) (SystemMessage (LeftRoom (username s))),
              Emit (ToRoom r0) (Presence r0 (getUserCount (leaveRoom st i (Some r0)) r0))])"
    and "roomMembers (join_state st i R) r0 = Some m \<Longrightarrow> i \<notin> set m"
proof -
  have f: "currentRoom s \<noteq> Some R" using r0 ne by auto
  have lc: "leave_current st i =
      (leaveRoom st i (Some r0),
       [Emit (ToRoom r0) (SystemMessage (LeftRoom (username s))),
        Emit (ToRoom r0) (Presence r0 (getUserCount (leaveRoom st i (Some r0)) r0))])"
    using s r0 by (simp add: leave_current_def Let_def)
  show "join_sync st i payload =
           Inr (Suspended (join_state st i R)
             [Emit (ToRoom r0) (SystemMessage (LeftRoom (username s))),
              Emit (ToRoom r0) (Presence r0 (getUserCount (leaveRoom st i (Some r0)) r0))])"
    by (simp add: join_sync_suspends [OF s R f] lc)
  have c: "cur st i = Some r0" using s r0 by (simp add: cur_def)
  show "roomMembers (join_state st i R) r0 = Some m \<Longrightarrow> i \<notin> set m"
    using ne r0(2)
    by (auto simp: join_rooms(1) [OF s] c roomMembers_leaveRoom split: option.splits if_splits)
qed

subsection \<open>The backlog of an undisturbed join\<close>

text \<open>
  When the continuation of a join runs in the state its first part left, the backlog is
  that of the room joined.
\<close>

lemma join_history_in_order:
  assumes "join_sync st i payload = Inr (Suspended st' out)"
    and R: "effective_room payload = Inr R"
  shows "join_resume st' i db ! 0 = Emit (ToSocket i) (History (recent_history db R))"
proof -
  from assms(1) obtain s where s: "sockets st i = Some s"
    by (cases "sockets st i") (simp_all add: join_sync_def)
  from assms(1) s R have ne: "currentRoom s \<noteq> Some R"
    by (auto simp: join_sync_def)
  from join_sync_suspends [OF s R ne] assms(1) have st': "st' = join_state st i R" by simp
  have "cur st' i = Some R" by (simp add: st' join_rooms(2) [OF s])
  then obtain s' where "sockets st' i = Some s'" "currentRoom s' = Some R"
    by (auto simp: cur_def split: option.splits)
  then show ?thesis by (rule join_resume_history)
qed

section \<open>Delivery on a pairing channel\<close>











lemma pairing_in_room_cong:
  "sockets st' j = sockets st j \<Longrightarrow> pairing st' j = pairing st j \<and> in_room st' r j = in_room st r j"
  by (simp add: pairing_def in_room_def)

lemma is_channel_stranger: "is_channel (''stranger-'' @ nid)"
  by (simp add: is_channel_def)














section \<open>The example runs are reachable\<close>

lemma run_alice_reg: "registry run_alice = [''a'']"
  by (simp add: run_alice_def step_defs)

lemma run_waiting_reg: "registry run_waiting = [''a'']"
  by (simp add: run_waiting_def run_alice_def step_defs)

lemma run_waiting_q: "waitingQueue run_waiting = [''a'']"
  by (simp add: run_waiting_def run_alice_def step_defs)

lemma reach_run_alice: "reachable run_alice"
  unfolding run_alice_def by (rule r_connect [OF r_init]) (simp_all add: init_state_def)

lemma reach_run_waiting: "reachable run_waiting"
  unfolding run_waiting_def by (rule r_findStranger [OF reach_run_alice]) (simp add: run_alice_reg)

lemma reach_run_self: "reachable run_self"
  unfolding run_self_def by (rule r_findStranger [OF reach_run_waiting]) (simp add: run_waiting_reg)

lemma run_empty_reg: "registry run_empty = [''a'']"
  by (simp add: run_empty_def run_alice_def step_defs)

lemma reach_run_empty: "reachable run_empty"
  unfolding run_empty_def by (rule r_join [OF reach_run_alice]) (simp add: run_alice_reg)

lemma reach_run_dev: "reachable run_dev"
  unfolding run_dev_def by (rule r_join [OF reach_run_empty]) (simp add: run_empty_reg)

lemma reach_run_closed: "reachable run_closed"
  unfolding run_closed_def by (rule r_disconnect [OF reach_run_empty]) (simp add: run_empty_reg)

lemma reach_run_both: "reachable run_both"
  unfolding run_both_def
  by (rule r_connect [OF reach_run_alice]) (simp_all add: run_alice_def step_defs)

lemma reach_run_both_paired: "reachable run_both_paired"
proof -
  have 2: "reachable run_both_waiting"
    unfolding run_both_waiting_def
    by (rule r_findStranger [OF reach_run_both]) (simp add: run_both_def run_alice_def step_defs)
  show ?thesis
    unfolding run_both_paired_def
    by (rule r_findStranger [OF 2])
       (simp add: run_both_waiting_def run_both_def run_alice_def step_defs)
qed

lemma reach_run_both_dev: "reachable run_both_dev"
proof -
  have 2: "reachable run_both_a_dev"
    unfolding run_both_a_dev_def
    by (rule r_join [OF reach_run_both]) (simp add: run_both_def run_alice_def step_defs)
  show ?thesis
    unfolding run_both_dev_def
    by (rule r_join [OF 2]) (simp add: run_both_a_dev_def run_both_def run_alice_def step_defs)
qed

lemma reach_run_ops_dev: "reachable run_ops_dev"
proof -
  have 1: "reachable run_ops"
    unfolding run_ops_def by (rule r_join [OF reach_run_alice]) (simp add: run_alice_reg)
  show ?thesis
    unfolding run_ops_dev_def
    by (rule r_join [OF 1]) (simp add: run_ops_def run_alice_def step_defs)
qed




section \<open>Room name normalisation\<close>




section \<open>Joining rooms\<close>

text \<open>
  C4 at its failing input. Alice joins with the room \<^verbatim>\<open>[]\<close>, which is truthy and
  prints as the empty string: her current room is the empty name and she is in its
  member set. A join for \<open>dev\<close> then tests \<^verbatim>\<open>if (currentRoom)\<close>, finds the empty string
  falsy, and skips the leave: neither part of the handler sends a left notice or a
  presence event to the old room, and her identifier is in the member sets of both rooms.
\<close>

theorem C4_empty_room_not_left:
  "reachable run_empty \<and> reachable run_dev
   \<and> roomMembers run_empty [] = Some [''a''] \<and> live_in_room run_empty [] = [''a'']
   \<and> join_sync run_empty ''a'' (room_payload ''dev'') = Inr (Suspended run_dev [])
   \<and> join_resume run_dev ''a'' [] =
        [Emit (ToSocket ''a'') (History []),
         Emit (ToSocket ''a'') (SystemMessage (Welcome ''alice'' ''dev'')),
         Emit (ToRoomExcept ''dev'' ''a'') (SystemMessage (JoinedRoom ''alice'')),
         Emit (ToRoom ''dev'') (Presence ''dev'' 1)]
   \<and> roomMembers run_dev [] = Some [''a''] \<and> roomMembers run_dev ''dev'' = Some [''a'']"
  by (simp add: reach_run_empty reach_run_dev)
     (simp add: run_dev_def run_empty_def run_alice_def live_in_room_def step_defs)

text \<open>
  C6 at its failing input. After alice joined with the room \<^verbatim>\<open>[]\<close> and disconnected,
  the presence count of the empty room name is 1 although no connection is left; and
  after she joined \<open>dev\<close> instead, the count of the empty name is 1 although her current
  room is \<open>dev\<close>.
\<close>

theorem C6_count_of_empty_room:
  "reachable run_closed \<and> getUserCount run_closed [] = 1
   \<and> registry run_closed = [] \<and> live_in_room run_closed [] = []
   \<and> reachable run_dev \<and> getUserCount run_dev [] = 1 \<and> live_in_room run_dev [] = []
   \<and> live_in_room run_dev ''dev'' = [''a'']"
  by (simp add: reach_run_closed reach_run_dev)
     (simp add: run_closed_def run_dev_def run_empty_def run_alice_def live_in_room_def
        step_defs)

text \<open>
  C9 at its failing input. Alice joins \<open>ops\<close> and, while the read of that join is
  pending, joins \<open>dev\<close>. The continuation of the join of \<open>ops\<close> then runs in a state
  where the closure's \<^verbatim>\<open>currentRoom\<close> is \<open>dev\<close>: the backlog it delivers for the
  join of \<open>ops\<close> consists of the records of \<open>dev\<close>, not of the one stored record of
  \<open>ops\<close>.
\<close>

theorem C9_history_of_later_join:
  "reachable run_ops_dev
   \<and> join_sync run_alice ''a'' (room_payload ''ops'') = Inr (Suspended run_ops [])
   \<and> join_sync run_ops ''a'' (room_payload ''dev'') =
       Inr (Suspended run_ops_dev
         [Emit (ToRoom ''ops'') (SystemMessage (LeftRoom ''alice'')),
          Emit (ToRoom ''ops'') (Presence ''ops'' 0)])
   \<and> join_resume run_ops_dev ''a'' db_example =
       [Emit (ToSocket ''a'') (History [msg ''3'' ''dev'' 5, msg ''1'' ''dev'' 9]),
        Emit (ToSocket ''a'') (SystemMessage (Welcome ''alice'' ''dev'')),
        Emit (ToRoomExcept ''dev'' ''a'') (SystemMessage (JoinedRoom ''alice'')),
        Emit (ToRoom ''dev'') (Presence ''dev'' 1)]
   \<and> recent_history db_example ''ops'' = [msg ''2'' ''ops'' 3]
   \<and> msg_room (msg ''3'' ''dev'' 5) \<noteq> ''ops''"
  by (simp add: reach_run_ops_dev)
     (simp add: run_ops_dev_def run_ops_def run_alice_def db_example_def msg_def step_defs)

section \<open>Typing notifications\<close>

text \<open>
  C10: a typing event from a connection with no current room changes nothing and emits
  nothing. With a current room, the state is unchanged and exactly one event goes to the
  room's other members, whose \<open>isTyping\<close> field is the boolean \<^verbatim>\<open>!!isTyping\<close>, whatever
  the payload was.
\<close>

theorem C10_typing:
  assumes "sockets st i = Some s"
  shows "(if_truthy (currentRoom s) = None \<longrightarrow> typing_handler st i v = (st, []))
    \<and> (\<forall>r. if_truthy (currentRoom s) = Some r \<longrightarrow>
          typing_handler st i v =
            (st, [Emit (ToRoomExcept r i) (Typing (username s) (truthy v))]))"
  using assms by (simp add: typing_handler_def)

theorem C10_typing_witness:
  "typing_handler st_lobby ''a'' (JNum 1) = (st_lobby, [])
   \<and> typing_handler st_dev ''a'' (JNum 1) =
       (st_dev, [Emit (ToRoomExcept ''dev'' ''a'') (Typing ''alice'' True)])
   \<and> typing_handler st_dev ''a'' (JStr []) =
       (st_dev, [Emit (ToRoomExcept ''dev'' ''a'') (Typing ''alice'' False)])"
proof -
  have lobby: "sockets st_lobby ''a'' = Some (sock ''alice'' [''a''] None None None)"
    by (simp add: st_lobby_def)
  have dev: "sockets st_dev ''a'' = Some (sock ''alice'' [''a'', ''dev''] None None (Some ''dev''))"
    by (simp add: st_dev_def)
  show ?thesis
    using C10_typing [OF lobby, of "JNum 1"] C10_typing [OF dev, of "JNum 1"]
      C10_typing [OF dev, of "JStr []"]
    by (simp add: sock_def)
qed

section \<open>Stranger chat\<close>

text \<open>
  C1 at its failing input. Alice asks for a stranger and waits; she asks again. The
  handler takes the first waiting identifier, which is her own, finds its socket
  connected, and binds the socket to itself: her partner is her own identifier.
\<close>

theorem C1_paired_with_itself:
  "reachable run_waiting \<and> waitingQueue run_waiting = [''a'']
   \<and> findStranger_handler run_waiting ''a'' ''n2'' =
        (run_self, [Emit (ToRoom ''stranger-n2'') StrangerFound])
   \<and> pairing run_self ''a'' = (Some ''stranger-n2'', Some ''a'')"
  by (simp add: reach_run_waiting run_waiting_q)
     (simp add: run_self_def run_waiting_def run_alice_def pairing_def step_defs)

text \<open>
  C5: in every reachable state, if the pairing state of \<open>a\<close> names channel \<open>r\<close> and
  partner \<open>b\<close>, then the pairing state of \<open>b\<close> names channel \<open>r\<close> and partner \<open>a\<close>,
  and both are connections the transport knows.
\<close>

theorem C5_pairing_symmetric:
  assumes "reachable st" and "pairing st a = (Some r, Some b)"
  shows "pairing st b = (Some r, Some a) \<and> a \<in> set (registry st) \<and> b \<in> set (registry st)"
  using reachable_pair_inv [OF assms(1)]
  by (cases rule: pairing_cases [where j = a]) (use assms(2) in auto)

theorem C5_pairing_symmetric_witness:
  "reachable run_both_paired \<and> pairing run_both_paired ''b'' = (Some ''stranger-n2'', Some ''a'')
   \<and> pairing run_both_paired ''a'' = (Some ''stranger-n2'', Some ''b'')"
proof -
  have b: "pairing run_both_paired ''b'' = (Some ''stranger-n2'', Some ''a'')"
    by (simp add: run_both_paired_def run_both_waiting_def run_both_def run_alice_def
        pairing_def step_defs)
  show ?thesis
    using C5_pairing_symmetric [OF reach_run_both_paired b] reach_run_both_paired b by simp
qed




text \<open>
  C8: when the first waiting identifier \<open>p\<close> is unknown to the transport or
  disconnected, findStranger (after tearing down the requester's own link, if any)
  removes \<open>p\<close> from the waiting queue, adds the requester at its end, leaves the other
  waiting identifiers alone, and tells the requester that it is waiting. No socket gets
  a new pairing and no partner-found event is emitted.
\<close>

theorem C8_stale_candidate:
  assumes "waitingQueue st = p # rest" and "\<not> alive st p"
  shows "findStranger_handler st i nid =
           ((fst (leave_if_paired st i))\<lparr>waitingQueue := set_add i (set_delete p (p # rest))\<rparr>,
            snd (leave_if_paired st i) @ [Emit (ToSocket i) WaitingStranger])
    \<and> i \<in> set (waitingQueue (fst (findStranger_handler st i nid)))
    \<and> (p \<noteq> i \<longrightarrow> p \<notin> set (waitingQueue (fst (findStranger_handler st i nid))))
    \<and> (\<forall>j. pairing (fst (findStranger_handler st i nid)) j = pairing st j
           \<or> pairing (fst (findStranger_handler st i nid)) j = (None, None))
    \<and> (\<forall>a. Emit a StrangerFound \<notin> set (snd (findStranger_handler st i nid)))"
proof -
  obtain st1 out1 where lip: "leave_if_paired st i = (st1, out1)"
    by (cases "leave_if_paired st i")
  have q1: "waitingQueue st1 = p # rest" and g1: "registry st1 = registry st"
    and c1: "conn st1 = conn st"
    using lip_other [of st i] lip assms(1) by simp_all
  have na: "\<not> alive (st1\<lparr>waitingQueue := set_delete p (p # rest)\<rparr>) p"
    using assms(2) by (simp add: alive_conn g1 c1 proj_queue_update)
  have res: "findStranger_handler st i nid =
       (st1\<lparr>waitingQueue := set_add i (set_delete p (p # rest))\<rparr>,
        out1 @ [Emit (ToSocket i) WaitingStranger])"
    using na by (auto simp: findStranger_handler_def lip q1 Let_def alive_def split: option.splits)
  have pr: "pairing st1 j = pairing st j \<or> pairing st1 j = (None, None)" for j
    using lip_pairing_gen [of st i] lip by (auto split: prod.splits option.splits if_splits)
  have out: "Emit a StrangerFound \<notin> set out1" for a
    using lip
    by (auto simp: leave_if_paired_def handleStrangerLeave_def Let_def
        split: option.splits prod.splits)
  show ?thesis
    using pr out by (auto simp: res lip set_add_def set_delete_def proj_queue_update)
qed

theorem C8_stale_candidate_witness:
  "findStranger_handler st_stale ''a'' ''n'' =
     (st_lobby\<lparr>waitingQueue := [''y'', ''a'']\<rparr>, [Emit (ToSocket ''a'') WaitingStranger])
   \<and> pairing (st_lobby\<lparr>waitingQueue := [''y'', ''a'']\<rparr>) ''a'' = (None, None)"
proof -
  have q: "waitingQueue st_stale = ''z'' # [''y'']" by (simp add: st_stale_def)
  have na: "\<not> alive st_stale ''z''"
    by (simp add: alive_def io_get_def st_stale_def st_lobby_def)
  have l: "leave_if_paired st_stale ''a'' = (st_stale, [])"
    by (simp add: leave_if_paired_def st_stale_def st_lobby_def sock_def)
  have "findStranger_handler st_stale ''a'' ''n'' =
      ((fst (leave_if_paired st_stale ''a''))
         \<lparr>waitingQueue := set_add ''a'' (set_delete ''z'' (''z'' # [''y'']))\<rparr>,
       snd (leave_if_paired st_stale ''a'') @ [Emit (ToSocket ''a'') WaitingStranger])"
    using C8_stale_candidate [OF q na, of "''a''" "''n''"] by (rule conjunct1)
  then have "findStranger_handler st_stale ''a'' ''n'' =
      (st_stale\<lparr>waitingQueue := [''y'', ''a'']\<rparr>, [Emit (ToSocket ''a'') WaitingStranger])"
    by (simp add: l set_add_def set_delete_def)
  then show ?thesis
    by (simp add: st_stale_def pairing_def st_lobby_def sock_def)
qed

section \<open>Disconnect cleanup\<close>

text \<open>
  C2, as stated, fails: the disconnect handler never clears \<^verbatim>\<open>currentRoom\<close>. With
  alice and bob in room \<open>dev\<close>, alice's connection closes and her cleanup runs; a
  second run of it emits the left notice and the presence event to \<open>dev\<close> again, and
  bob receives them.
\<close>

theorem C2_second_run_emits:
  "reachable run_both_dev
   \<and> snd (disconnect_handler
            (fst (disconnect_handler (transport_close run_both_dev ''a'') ''a'')) ''a'') =
       [Emit (ToRoom ''dev'') (SystemMessage (LeftRoom ''alice'')),
        Emit (ToRoom ''dev'') (Presence ''dev'' 1)]
   \<and> recipients (fst (disconnect_handler (transport_close run_both_dev ''a'') ''a''))
         (ToRoom ''dev'') = [''b'']"
  by (simp add: reach_run_both_dev)
     (simp add: run_both_dev_def run_both_a_dev_def run_both_def run_alice_def in_room_def
        step_defs)

text \<open>
  C2, amended: running the disconnect cleanup for a connection twice leaves the same
  shared state as running it once, and the second run emits no pairing event; it emits
  the left notice and the presence event of the connection's current room once more
  when that room is set and non-empty, and nothing otherwise.
\<close>

theorem C2_disconnect_twice:
  "fst (disconnect_handler (fst (disconnect_handler st i)) i) = fst (disconnect_handler st i)
   \<and> snd (disconnect_handler (fst (disconnect_handler st i)) i) =
       (case sockets st i of
          None \<Rightarrow> []
        | Some s \<Rightarrow>
            (case if_truthy (currentRoom s) of
               None \<Rightarrow> []
             | Some r \<Rightarrow>
                 [Emit (ToRoom r) (SystemMessage (LeftRoom (username s))),
                  Emit (ToRoom r) (Presence r (getUserCount (fst (disconnect_handler st i)) r))]))"
proof -
  obtain st1 out1 where lc: "leave_current st i = (st1, out1)" by (cases "leave_current st i")
  define st2 where "st2 = (if i \<in> set (waitingQueue st1)
                 then st1\<lparr>waitingQueue := set_delete i (waitingQueue st1)\<rparr> else st1)"
  define st3 where "st3 = fst (leave_if_paired st2 i)"
  have res: "fst (disconnect_handler st i) = st3"
    by (simp add: disconnect_handler_def lc st2_def st3_def Let_def split: prod.splits)
  have "has_left st1 i" using has_left_leave_current [of st i] lc by simp
  then have "has_left st2 i" by (simp add: st2_def has_left_queue)
  then have hl: "has_left st3 i" unfolding st3_def by (rule has_left_lip)
  have q: "i \<notin> set (waitingQueue st3)"
    by (simp add: st3_def lip_other st2_def set_delete_def)
  have l: "leave_if_paired st3 i = (st3, [])"
    unfolding st3_def by (rule lip_twice)
  obtain out3 where lc3: "leave_current st3 i = (st3, out3)"
    using has_left_fixed [OF hl] by (cases "leave_current st3 i") simp
  have twice: "disconnect_handler st3 i = (st3, out3)"
    using q l by (simp add: disconnect_handler_def lc3)
  have out3: "out3 = (case sockets st i of
          None \<Rightarrow> []
        | Some s \<Rightarrow>
            (case if_truthy (currentRoom s) of
               None \<Rightarrow> []
             | Some r \<Rightarrow>
                 [Emit (ToRoom r) (SystemMessage (LeftRoom (username s))),
                  Emit (ToRoom r) (Presence r (getUserCount st3 r))]))"
  proof (cases "sockets st i")
    case None
    with disconnect_socket [of st i] have "sockets st3 i = None" by (simp add: res)
    with None leave_current_out [OF lc3] show ?thesis by simp
  next
    case (Some s)
    with disconnect_socket [of st i] obtain s' where "sockets st3 i = Some s'"
      "currentRoom s' = currentRoom s" "username s' = username s"
      by (auto simp: res)
    with Some leave_current_out [OF lc3] show ?thesis by (simp split: option.splits)
  qed
  show ?thesis
    unfolding res twice using out3 by simp
qed

end
